theory Spec2Isabelle
  imports Main
begin

section \<open>The SSRC registry of \<^verbatim>\<open>src/receive/SSRCMap.ts\<close>\<close>

text \<open>
  The class \<^verbatim>\<open>SSRCMap\<close> keeps an ECMAScript \<^verbatim>\<open>Map\<close> from audio SSRCs to
  \<^verbatim>\<open>VoiceUserData\<close> objects, emits the events \<^verbatim>\<open>new\<close>, \<^verbatim>\<open>update\<close> and
  \<^verbatim>\<open>delete\<close>, and offers \<^verbatim>\<open>resolve\<close>, which waits for a \<^verbatim>\<open>new\<close> event
  with an optional timer. The embedding passes the state of one \<^verbatim>\<open>SSRCMap\<close>
  object explicitly. SSRCs are integers (the source's \<^verbatim>\<open>number\<close>, restricted
  to the integral values an SSRC takes).
\<close>

subsection \<open>Objects and their properties\<close>

text \<open>
  A JavaScript object either lacks a property, or has it with the value
  \<^verbatim>\<open>undefined\<close>, or has it with a proper value. The three cases differ under
  object spread, which copies every own property, the undefined ones too.
\<close>

datatype 'a slot = Absent | Undefined | Present 'a

text \<open>
  \<^verbatim>\<open>VoiceUserData\<close>: \<^verbatim>\<open>audioSSRC\<close> is read from every argument of
  \<^verbatim>\<open>update\<close> and is the key of the map; the other two are properties that an
  object handed over at run time may or may not carry.
\<close>

record VoiceUserData =
  audioSSRC :: int
  videoSSRC :: "int slot"
  userId :: "string slot"

text \<open>One property of \<^verbatim>\<open>{...a, ...b}\<close>: the one of \<open>b\<close> when \<open>b\<close> has it.\<close>

fun spread_slot :: "'a slot \<Rightarrow> 'a slot \<Rightarrow> 'a slot" where
  "spread_slot old Absent = old"
| "spread_slot old new = new"

text \<open>
  \<^verbatim>\<open>{ ...this.map.get(data.audioSSRC), ...data }\<close>; spreading \<^verbatim>\<open>undefined\<close>
  contributes no property.
\<close>

fun spread :: "VoiceUserData option \<Rightarrow> VoiceUserData \<Rightarrow> VoiceUserData" where
  "spread None data = data"
| "spread (Some existing) data =
     \<lparr>audioSSRC = audioSSRC data,
      videoSSRC = spread_slot (videoSSRC existing) (videoSSRC data),
      userId = spread_slot (userId existing) (userId data)\<rparr>"

subsection \<open>The underlying map\<close>

text \<open>
  An ECMAScript \<^verbatim>\<open>Map\<close> iterates in insertion order: \<^verbatim>\<open>set\<close> on a key that
  is there replaces the value in place, \<^verbatim>\<open>set\<close> on a new key appends the entry,
  \<^verbatim>\<open>delete\<close> removes the entry. The map is the list of its entries in
  iteration order.
\<close>

type_synonym 'v jsmap = "(int \<times> 'v) list"

fun map_get :: "'v jsmap \<Rightarrow> int \<Rightarrow> 'v option" where
  "map_get [] k = None"
| "map_get ((k', v) # m) k = (if k' = k then Some v else map_get m k)"

fun map_set :: "int \<Rightarrow> 'v \<Rightarrow> 'v jsmap \<Rightarrow> 'v jsmap" where
  "map_set k v [] = [(k, v)]"
| "map_set k v ((k', v') # m) = (if k' = k then (k, v) # m else (k', v') # map_set k v m)"

fun map_delete :: "int \<Rightarrow> 'v jsmap \<Rightarrow> 'v jsmap" where
  "map_delete k [] = []"
| "map_delete k ((k', v) # m) = (if k' = k then m else (k', v) # map_delete k m)"

definition map_values :: "'v jsmap \<Rightarrow> 'v list" where
  "map_values m = map snd m"

definition map_keys :: "'v jsmap \<Rightarrow> int list" where
  "map_keys m = map fst m"

subsection \<open>Events, promises and the state of the object\<close>

text \<open>The three events of \<^verbatim>\<open>SSRCMapEvents\<close>, with their arguments.\<close>

datatype event =
    EvNew VoiceUserData
  | EvUpdate "VoiceUserData option" VoiceUserData
  | EvDelete VoiceUserData

text \<open>
  \<^verbatim>\<open>new Error(`Did not find SSRC for user ${target} within ${maxTime}ms`)\<close>:
  the error is kept as the two values its message is built from.
\<close>

datatype error = Error string int

datatype outcome = Resolved VoiceUserData | Rejected error

text \<open>
  What \<^verbatim>\<open>resolve\<close> returns: a promise that is already fulfilled, or a new
  pending promise, known by its number.
\<close>

datatype promise = Fulfilled VoiceUserData | Pending nat

text \<open>
  The variables that the closure \<^verbatim>\<open>onNew\<close> of one call of \<^verbatim>\<open>resolve\<close>
  captures: the promise, \<^verbatim>\<open>target\<close> and \<^verbatim>\<open>maxTime\<close> (\<^verbatim>\<open>timeout\<close> is
  set exactly when \<^verbatim>\<open>maxTime\<close> is a number).
\<close>

record waiter =
  w_promise :: nat
  w_target :: string
  w_maxTime :: "int option"

text \<open>
  The same for the timer callback, which exists only when \<^verbatim>\<open>maxTime\<close> is a
  number.
\<close>

record timer =
  t_promise :: nat
  t_target :: string
  t_maxTime :: int

text \<open>
  The state: \<^verbatim>\<open>this.map\<close>; the listeners of \<^verbatim>\<open>new\<close> in registration order
  (only \<^verbatim>\<open>resolve\<close> registers listeners in this file; subscribers from outside
  are seen through the trace \<open>emitted\<close>); the timers that are set and have
  neither fired nor been cleared; the trace of emitted events; every call of a
  promise's \<^verbatim>\<open>resolve\<close> or \<^verbatim>\<open>reject\<close> function, in order; the number of
  the next promise.
\<close>

record SSRCMap =
  map_entries :: "VoiceUserData jsmap"
  listeners_new :: "waiter list"
  timeouts :: "timer list"
  emitted :: "event list"
  settled :: "(nat \<times> outcome) list"
  next_promise :: nat

text \<open>The constructor.\<close>

definition init :: SSRCMap where
  "init = \<lparr>map_entries = [], listeners_new = [], timeouts = [], emitted = [],
           settled = [], next_promise = 0\<rparr>"

subsection \<open>The event emitter, timers and promises\<close>

text \<open>\<^verbatim>\<open>this.off('new', onNew)\<close> for the closure of promise \<open>p\<close>.\<close>

definition off_new :: "nat \<Rightarrow> SSRCMap \<Rightarrow> SSRCMap" where
  "off_new p s = s\<lparr>listeners_new := filter (\<lambda>w. w_promise w \<noteq> p) (listeners_new s)\<rparr>"

text \<open>\<^verbatim>\<open>clearTimeout(timeout)\<close>: a timer that is cleared never fires.\<close>

definition clearTimeout :: "nat \<Rightarrow> SSRCMap \<Rightarrow> SSRCMap" where
  "clearTimeout p s = s\<lparr>timeouts := filter (\<lambda>t. t_promise t \<noteq> p) (timeouts s)\<rparr>"

text \<open>A call of the \<^verbatim>\<open>resolve\<close> or \<^verbatim>\<open>reject\<close> function of promise \<open>p\<close>.\<close>

definition settle :: "nat \<Rightarrow> outcome \<Rightarrow> SSRCMap \<Rightarrow> SSRCMap" where
  "settle p out s = s\<lparr>settled := settled s @ [(p, out)]\<rparr>"

text \<open>
  The closure \<^verbatim>\<open>onNew\<close>:
  \<^verbatim>\<open>if (userData.userId === target) { this.off('new', onNew);
       if (timeout) clearTimeout(timeout); resolve(userData); }\<close>
  where \<^verbatim>\<open>timeout\<close> is set exactly when \<^verbatim>\<open>maxTime\<close> is a number.
\<close>

definition onNew :: "waiter \<Rightarrow> VoiceUserData \<Rightarrow> SSRCMap \<Rightarrow> SSRCMap" where
  "onNew w userData s =
     (if userId userData = Present (w_target w) then
        (let s1 = off_new (w_promise w) s;
             s2 = (if w_maxTime w \<noteq> None then clearTimeout (w_promise w) s1 else s1)
         in settle (w_promise w) (Resolved userData) s2)
      else s)"

text \<open>
  \<^verbatim>\<open>emit\<close> calls, one after the other, the listeners that were registered
  when it started. Only \<^verbatim>\<open>new\<close> has listeners here.
\<close>

definition call_listeners :: "waiter list \<Rightarrow> VoiceUserData \<Rightarrow> SSRCMap \<Rightarrow> SSRCMap" where
  "call_listeners ws userData s = fold (\<lambda>w. onNew w userData) ws s"

fun emit :: "event \<Rightarrow> SSRCMap \<Rightarrow> SSRCMap" where
  "emit (EvNew newData) s =
     call_listeners (listeners_new s) newData (s\<lparr>emitted := emitted s @ [EvNew newData]\<rparr>)"
| "emit ev s = s\<lparr>emitted := emitted s @ [ev]\<rparr>"

subsection \<open>The methods of SSRCMap\<close>

definition update :: "VoiceUserData \<Rightarrow> SSRCMap \<Rightarrow> SSRCMap" where
  "update data s =
     (let existing = map_get (map_entries s) (audioSSRC data);
          newValue = spread (map_get (map_entries s) (audioSSRC data)) data;
          s1 = s\<lparr>map_entries := map_set (audioSSRC data) newValue (map_entries s)\<rparr>;
          s2 = (if existing = None then emit (EvNew newValue) s1 else s1)
      in emit (EvUpdate existing newValue) s2)"

text \<open>The argument of \<^verbatim>\<open>get\<close> and \<^verbatim>\<open>delete\<close>, told apart by \<^verbatim>\<open>typeof\<close>.\<close>

datatype target = Num int | Str string

fun get :: "target \<Rightarrow> SSRCMap \<Rightarrow> VoiceUserData option" where
  "get (Num n) s = map_get (map_entries s) n"
| "get (Str u) s = find (\<lambda>data. userId data = Present u) (map_values (map_entries s))"

fun delete :: "target \<Rightarrow> SSRCMap \<Rightarrow> VoiceUserData option \<times> SSRCMap" where
  "delete (Num n) s =
     (case map_get (map_entries s) n of
        None \<Rightarrow> (None, s)
      | Some existing \<Rightarrow>
          (Some existing,
           emit (EvDelete existing) (s\<lparr>map_entries := map_delete n (map_entries s)\<rparr>)))"
| "delete (Str u) s =
     (case find (\<lambda>(k, data). userId data = Present u) (map_entries s) of
        None \<Rightarrow> (None, s)
      | Some (k, data) \<Rightarrow>
          (Some data,
           emit (EvDelete data) (s\<lparr>map_entries := map_delete k (map_entries s)\<rparr>)))"

text \<open>
  \<^verbatim>\<open>resolve\<close>. The executor of the new promise runs at once: it sets the
  timer when \<^verbatim>\<open>maxTime\<close> is a number and then registers \<^verbatim>\<open>onNew\<close>.
\<close>

definition resolve :: "string \<Rightarrow> int option \<Rightarrow> SSRCMap \<Rightarrow> promise \<times> SSRCMap" where
  "resolve u maxTime s =
     (case get (Str u) s of
        Some existing \<Rightarrow> (Fulfilled existing, s)
      | None \<Rightarrow>
          (let p = next_promise s;
               s1 = (case maxTime of
                       Some ms \<Rightarrow>
                         s\<lparr>timeouts := timeouts s @
                              [\<lparr>t_promise = p, t_target = u, t_maxTime = ms\<rparr>]\<rparr>
                     | None \<Rightarrow> s);
               s2 = s1\<lparr>listeners_new := listeners_new s1 @
                      [\<lparr>w_promise = p, w_target = u, w_maxTime = maxTime\<rparr>]\<rparr>
           in (Pending p, s2\<lparr>next_promise := Suc p\<rparr>)))"

text \<open>
  The timer callback of promise \<open>p\<close>, run by the event loop when the time is
  up; the event loop runs only a timer that is still set, and then it is no
  longer set:
  \<^verbatim>\<open>this.off('new', onNew); reject(new Error(...))\<close>.
\<close>

definition timer_fires :: "nat \<Rightarrow> SSRCMap \<Rightarrow> SSRCMap" where
  "timer_fires p s =
     (case find (\<lambda>t. t_promise t = p) (timeouts s) of
        None \<Rightarrow> s
      | Some t \<Rightarrow>
          settle p (Rejected (Error (t_target t) (t_maxTime t)))
            (off_new p (clearTimeout p s)))"

text \<open>
  A promise takes the first call of its \<^verbatim>\<open>resolve\<close> or \<^verbatim>\<open>reject\<close>
  function and ignores the later ones.
\<close>

definition outcome_of :: "nat \<Rightarrow> SSRCMap \<Rightarrow> outcome option" where
  "outcome_of p s = map_of (settled s) p"

text \<open>All the calls made to the two functions of promise \<open>p\<close>.\<close>

definition calls_of :: "nat \<Rightarrow> SSRCMap \<Rightarrow> outcome list" where
  "calls_of p s = map snd (filter (\<lambda>c. fst c = p) (settled s))"

subsection \<open>Runs of the object\<close>

text \<open>
  What can happen to the object: a call of a method that changes it, or the
  event loop running a timer. Execution is single-threaded, so a run is a
  sequence of these.
\<close>

datatype op =
    OpUpdate VoiceUserData
  | OpDelete target
  | OpResolve string "int option"
  | OpTimer nat

fun exec :: "op \<Rightarrow> SSRCMap \<Rightarrow> SSRCMap" where
  "exec (OpUpdate data) s = update data s"
| "exec (OpDelete t) s = snd (delete t s)"
| "exec (OpResolve u maxTime) s = snd (resolve u maxTime s)"
| "exec (OpTimer p) s = timer_fires p s"

fun run :: "op list \<Rightarrow> SSRCMap \<Rightarrow> SSRCMap" where
  "run [] s = s"
| "run (x # xs) s = run xs (exec x s)"

subsection \<open>Invariants of the reachable states\<close>

text \<open>
  The map holds one entry for each key, and the binding stored under a key
  carries that key as its \<^verbatim>\<open>audioSSRC\<close>.
\<close>

definition wf_map :: "VoiceUserData jsmap \<Rightarrow> bool" where
  "wf_map m \<longleftrightarrow> distinct (map fst m) \<and> (\<forall>(k, b) \<in> set m. audioSSRC b = k)"

text \<open>
  The promises: a waiter that is registered has a number below the next one,
  no two registered waiters share a promise, no function of the promise of a
  registered waiter has been called, no promise had its functions called
  twice, a timer that is set belongs to a registered waiter, a registered
  waiter with a \<^verbatim>\<open>maxTime\<close> has its timer set, and every promise created so
  far is settled or has its waiter registered.
\<close>

definition listener_of :: "timer \<Rightarrow> waiter" where
  "listener_of t = \<lparr>w_promise = t_promise t, w_target = t_target t, w_maxTime = Some (t_maxTime t)\<rparr>"

definition wf_waiters :: "SSRCMap \<Rightarrow> bool" where
  "wf_waiters s \<longleftrightarrow>
     distinct (map w_promise (listeners_new s)) \<and>
     (\<forall>w \<in> set (listeners_new s). w_promise w < next_promise s) \<and>
     (\<forall>c \<in> set (settled s). fst c < next_promise s) \<and>
     (\<forall>w \<in> set (listeners_new s). w_promise w \<notin> fst ` set (settled s)) \<and>
     distinct (map fst (settled s)) \<and>
     (\<forall>t \<in> set (timeouts s). listener_of t \<in> set (listeners_new s)) \<and>
     (\<forall>w \<in> set (listeners_new s). \<forall>ms. w_maxTime w = Some ms \<longrightarrow>
        \<lparr>t_promise = w_promise w, t_target = w_target w, t_maxTime = ms\<rparr> \<in> set (timeouts s)) \<and>
     (\<forall>p < next_promise s. p \<in> fst ` set (settled s) \<or> p \<in> w_promise ` set (listeners_new s))"

subsection \<open>Observations on the trace\<close>

text \<open>Whether an event is the creation, or the update, of the binding of key \<open>K\<close>.\<close>

fun is_new_for :: "int \<Rightarrow> event \<Rightarrow> bool" where
  "is_new_for K (EvNew v) = (audioSSRC v = K)"
| "is_new_for K ev = False"

fun is_update_for :: "int \<Rightarrow> event \<Rightarrow> bool" where
  "is_update_for K (EvUpdate old v) = (audioSSRC v = K)"
| "is_update_for K ev = False"

text \<open>Whether \<^verbatim>\<open>userData.userId === target\<close> holds in the closure of a waiter.\<close>

definition matches :: "VoiceUserData \<Rightarrow> waiter \<Rightarrow> bool" where
  "matches v w \<longleftrightarrow> userId v = Present (w_target w)"

section \<open>Properties of the underlying map\<close>

lemma map_get_set: "map_get (map_set k v m) k' = (if k' = k then Some v else map_get m k')"
  by (induction m) auto

lemma map_get_None_iff: "map_get m k = None \<longleftrightarrow> k \<notin> fst ` set m"
  by (induction m) (force split: if_splits)+

lemma map_get_Some_mem: "map_get m k = Some v \<Longrightarrow> (k, v) \<in> set m"
  by (induction m) (auto split: if_splits)

lemma map_get_distinct: "distinct (map fst m) \<Longrightarrow> (k, v) \<in> set m \<Longrightarrow> map_get m k = Some v"
  by (induction m) (force split: if_splits)+

lemma map_keys_set:
  "map fst (map_set k v m) = (if k \<in> fst ` set m then map fst m else map fst m @ [k])"
  by (induction m) (force split: if_splits)+

lemma length_map_set: "length (map_set k v m) = (if k \<in> fst ` set m then length m else Suc (length m))"
  by (induction m) (force split: if_splits)+

lemma set_map_set: "set (map_set k v m) \<subseteq> insert (k, v) (set m)"
  by (induction m) (auto split: if_splits)

lemma set_map_delete: "set (map_delete k m) \<subseteq> set m"
  by (induction m) (auto split: if_splits)


lemma distinct_map_delete: "distinct (map fst m) \<Longrightarrow> distinct (map fst (map_delete k m))"
proof (induction m)
  case Nil
  then show ?case by simp
next
  case (Cons a m)
  obtain k' v where a: "a = (k', v)" by (cases a)
  have "fst ` set (map_delete k m) \<subseteq> fst ` set m"
    using set_map_delete [of k m] by blast
  with Cons a show ?case by auto
qed

section \<open>What the methods do to the map and to the trace\<close>

lemma fold_onNew_fields:
  "map_entries (fold (\<lambda>w. onNew w v) ws s) = map_entries s \<and>
   emitted (fold (\<lambda>w. onNew w v) ws s) = emitted s \<and>
   next_promise (fold (\<lambda>w. onNew w v) ws s) = next_promise s"
  by (induction ws arbitrary: s)
     (simp_all add: onNew_def off_new_def clearTimeout_def settle_def Let_def)

lemma call_listeners_entries [simp]:
  "map_entries (call_listeners ws v s) = map_entries s"
  by (simp add: call_listeners_def fold_onNew_fields)

lemma call_listeners_emitted [simp]: "emitted (call_listeners ws v s) = emitted s"
  by (simp add: call_listeners_def fold_onNew_fields)

lemma call_listeners_next_promise [simp]:
  "next_promise (call_listeners ws v s) = next_promise s"
  by (simp add: call_listeners_def fold_onNew_fields)

lemma emit_entries [simp]: "map_entries (emit ev s) = map_entries s"
  by (cases ev) simp_all

lemma emit_emitted [simp]: "emitted (emit ev s) = emitted s @ [ev]"
  by (cases ev) simp_all

lemma emit_next_promise [simp]: "next_promise (emit ev s) = next_promise s"
  by (cases ev) simp_all

lemma update_entries:
  "map_entries (update d s) =
     map_set (audioSSRC d) (spread (map_get (map_entries s) (audioSSRC d)) d) (map_entries s)"
  by (simp add: update_def Let_def)

lemma update_emitted:
  "emitted (update d s) =
     emitted s @
       (case map_get (map_entries s) (audioSSRC d) of
          None \<Rightarrow> [EvNew d, EvUpdate None d]
        | Some b \<Rightarrow> [EvUpdate (Some b) (spread (Some b) d)])"
  by (simp add: update_def Let_def split: option.splits)

lemma audioSSRC_spread [simp]: "audioSSRC (spread e d) = audioSSRC d"
  by (cases e) simp_all

subsection \<open>The keys of the reachable maps\<close>

lemma wf_map_set: "wf_map m \<Longrightarrow> audioSSRC b = k \<Longrightarrow> wf_map (map_set k b m)"
  unfolding wf_map_def using set_map_set [of k b m]
  by (auto simp: map_keys_set)

lemma wf_map_delete: "wf_map m \<Longrightarrow> wf_map (map_delete k m)"
  unfolding wf_map_def using set_map_delete [of k m]
  by (auto simp: distinct_map_delete)

lemma delete_entries:
  "map_entries (snd (delete t s)) = map_entries s \<or>
   (\<exists>k. map_entries (snd (delete t s)) = map_delete k (map_entries s))"
  by (cases t) (auto split: option.splits)

lemma resolve_entries [simp]: "map_entries (snd (resolve u mt s)) = map_entries s"
  by (simp add: resolve_def Let_def split: option.splits)

lemma timer_fires_entries [simp]: "map_entries (timer_fires p s) = map_entries s"
  by (simp add: timer_fires_def settle_def off_new_def clearTimeout_def split: option.splits)

lemma wf_map_exec: "wf_map (map_entries s) \<Longrightarrow> wf_map (map_entries (exec x s))"
proof (cases x)
  case (OpDelete t)
  assume "wf_map (map_entries s)"
  with OpDelete delete_entries [of t s] show ?thesis
    by (auto simp: wf_map_delete)
qed (simp_all add: update_entries wf_map_set)

lemma wf_map_run: "wf_map (map_entries s) \<Longrightarrow> wf_map (map_entries (run ops s))"
  by (induction ops arbitrary: s) (simp_all add: wf_map_exec)

lemma wf_map_init: "wf_map (map_entries (run ops init))"
  by (rule wf_map_run) (simp add: init_def wf_map_def)

section \<open>Merging, lookup and removal\<close>

subsection \<open>The merged binding\<close>

lemma spread_slot_if: "spread_slot old new = (if new = Absent then old else new)"
  by (cases new) simp_all

lemma spread_Some_eq:
  "spread (Some B) d =
     \<lparr>audioSSRC = audioSSRC d,
      videoSSRC = (if videoSSRC d = Absent then videoSSRC B else videoSSRC d),
      userId = (if userId d = Absent then userId B else userId d)\<rparr>"
  by (cases "videoSSRC d"; cases "userId d") simp_all

lemma stored_audioSSRC:
  "map_get (map_entries (run ops init)) K = Some B \<Longrightarrow> audioSSRC B = K"
  using wf_map_init [of ops] map_get_Some_mem [of "map_entries (run ops init)" K B]
  unfolding wf_map_def by auto

lemma filter_map_set:
  "filter (\<lambda>e. fst e \<noteq> k) (map_set k v m) = filter (\<lambda>e. fst e \<noteq> k) m"
  by (induction m) auto

lemma spread_slot_cases: "spread_slot old new = old \<or> spread_slot old new = new"
  by (cases new) simp_all

lemma videoSSRC_spread:
  "videoSSRC (spread e d) = videoSSRC d \<or> (\<exists>b. e = Some b \<and> videoSSRC (spread e d) = videoSSRC b)"
  using spread_slot_cases by (cases e) auto

lemma video_exec:
  assumes "\<forall>e \<in> set (map_entries s). videoSSRC (snd e) \<noteq> Present 0"
    and "\<forall>d. x = OpUpdate d \<longrightarrow> videoSSRC d \<noteq> Present 0"
  shows "\<forall>e \<in> set (map_entries (exec x s)). videoSSRC (snd e) \<noteq> Present 0"
proof (cases x)
  case (OpUpdate d)
  let ?old = "map_get (map_entries s) (audioSSRC d)"
  have new: "videoSSRC (spread ?old d) \<noteq> Present 0"
  proof (cases ?old)
    case None
    with assms(2) OpUpdate show ?thesis by simp
  next
    case (Some b)
    then have "(audioSSRC d, b) \<in> set (map_entries s)" by (rule map_get_Some_mem)
    with assms(1) have "videoSSRC b \<noteq> Present 0" by force
    with assms(2) OpUpdate Some videoSSRC_spread [of ?old d] show ?thesis by auto
  qed
  have "set (map_entries (update d s)) \<subseteq>
          insert (audioSSRC d, spread ?old d) (set (map_entries s))"
    by (simp add: update_entries set_map_set)
  with new assms(1) OpUpdate show ?thesis by auto
next
  case (OpDelete t)
  with assms(1) delete_entries [of t s] set_map_delete show ?thesis
    by (metis exec.simps(2) subsetD)
qed (use assms(1) in simp_all)

lemma video_run:
  "\<forall>e \<in> set (map_entries s). videoSSRC (snd e) \<noteq> Present 0 \<Longrightarrow>
   \<forall>d. OpUpdate d \<in> set ops \<longrightarrow> videoSSRC d \<noteq> Present 0 \<Longrightarrow>
   \<forall>e \<in> set (map_entries (run ops s)). videoSSRC (snd e) \<noteq> Present 0"
proof (induction ops arbitrary: s)
  case Nil
  then show ?case by simp
next
  case (Cons x ops)
  have "\<forall>e \<in> set (map_entries (exec x s)). videoSSRC (snd e) \<noteq> Present 0"
    using Cons.prems by (intro video_exec) auto
  then show ?case using Cons.IH [of "exec x s"] Cons.prems(2) by simp
qed

subsection \<open>Lookup\<close>

lemma get_Num_reachable:
  "get (Num n) (run ops init) = Some b \<longleftrightarrow> (n, b) \<in> set (map_entries (run ops init))"
proof
  assume "get (Num n) (run ops init) = Some b"
  then show "(n, b) \<in> set (map_entries (run ops init))"
    by (simp add: map_get_Some_mem)
next
  assume "(n, b) \<in> set (map_entries (run ops init))"
  moreover have "distinct (map fst (map_entries (run ops init)))"
    using wf_map_init [of ops] by (simp add: wf_map_def)
  ultimately show "get (Num n) (run ops init) = Some b"
    by (simp add: map_get_distinct)
qed

lemma find_map_Some:
  "find P (map f xs) = Some y \<longleftrightarrow>
     (\<exists>i < length xs. f (xs ! i) = y \<and> P y \<and> (\<forall>j < i. \<not> P (f (xs ! j))))"
  (is "?L \<longleftrightarrow> ?R")
proof
  assume ?L
  then obtain i where i: "i < length (map f xs)" "P (map f xs ! i)" "y = map f xs ! i"
    "\<forall>j < i. \<not> P (map f xs ! j)"
    unfolding find_Some_iff by blast
  from i(1) have len: "i < length xs" by simp
  have "\<forall>j < i. \<not> P (f (xs ! j))"
  proof (intro allI impI)
    fix j assume "j < i"
    with i(4) len show "\<not> P (f (xs ! j))" by (metis nth_map order.strict_trans)
  qed
  with i len show ?R by auto
next
  assume ?R
  then obtain i where i: "i < length xs" "f (xs ! i) = y" "P y" "\<forall>j < i. \<not> P (f (xs ! j))"
    by blast
  have "\<forall>j < i. \<not> P (map f xs ! j)"
  proof (intro allI impI)
    fix j assume "j < i"
    with i(1,4) show "\<not> P (map f xs ! j)" by simp
  qed
  with i have "\<exists>i < length (map f xs). P (map f xs ! i) \<and> y = map f xs ! i \<and>
      (\<forall>j < i. \<not> P (map f xs ! j))"
    by (intro exI [of _ i]) simp
  then show ?L unfolding find_Some_iff .
qed

lemma get_Str_Some:
  "get (Str u) s = Some b \<longleftrightarrow>
        (\<exists>i < length (map_entries s).
           snd (map_entries s ! i) = b \<and> userId b = Present u \<and>
           (\<forall>j < i. userId (snd (map_entries s ! j)) \<noteq> Present u))"
  by (simp only: get.simps map_values_def find_map_Some)

subsection \<open>Counting the notifications of a run of updates\<close>

lemma update_keys:
  "fst ` set (map_entries (update d s)) = insert (audioSSRC d) (fst ` set (map_entries s))"
proof -
  have "set (map fst (map_entries (update d s))) =
        insert (audioSSRC d) (set (map fst (map_entries s)))"
    unfolding update_entries map_keys_set by auto
  then show ?thesis by simp
qed

lemma count_new_updates:
  "length (filter (is_new_for K) (emitted (run (map OpUpdate ds) s))) =
     length (filter (is_new_for K) (emitted s)) +
       (if K \<in> fst ` set (map_entries s) \<or> K \<notin> audioSSRC ` set ds then 0 else 1)"
proof (induction ds arbitrary: s)
  case Nil
  then show ?case by simp
next
  case (Cons d ds)
  have step: "length (filter (is_new_for K) (emitted (update d s))) =
      length (filter (is_new_for K) (emitted s)) +
        (if audioSSRC d = K \<and> K \<notin> fst ` set (map_entries s) then 1 else 0)"
    by (simp add: update_emitted map_get_None_iff [symmetric] split: option.splits)
  show ?case
    using Cons.IH [of "update d s"] step by (simp add: update_keys)
qed

lemma count_update_updates:
  "length (filter (is_update_for K) (emitted (run (map OpUpdate ds) s))) =
     length (filter (is_update_for K) (emitted s)) +
       length (filter (\<lambda>d. audioSSRC d = K) ds)"
proof (induction ds arbitrary: s)
  case Nil
  then show ?case by simp
next
  case (Cons d ds)
  have step: "length (filter (is_update_for K) (emitted (update d s))) =
      length (filter (is_update_for K) (emitted s)) + (if audioSSRC d = K then 1 else 0)"
    by (simp add: update_emitted split: option.splits)
  show ?case
    using Cons.IH [of "update d s"] step by simp
qed

subsection \<open>Lookup by user id against lookup by key\<close>

lemma find_first_owner:
  assumes "distinct (map fst m)" and "\<forall>(k, b) \<in> set m. audioSSRC b = k"
    and "(k, b) \<in> set m" and "P b"
  shows "find P (map snd m) = Some b \<longleftrightarrow>
           (\<forall>e \<in> set (takeWhile (\<lambda>e. fst e \<noteq> k) m). \<not> P (snd e))"
  using assms
proof (induction m)
  case Nil
  then show ?case by simp
next
  case (Cons e m)
  obtain k0 b0 where e: "e = (k0, b0)" by (cases e)
  show ?case
  proof (cases "k0 = k")
    case True
    with Cons.prems e have "b0 = b" by (auto simp: image_iff)
    with True e Cons.prems(4) show ?thesis by simp
  next
    case False
    with Cons.prems e have mem: "(k, b) \<in> set m" by auto
    from Cons.prems e have key: "audioSSRC b0 = k0" "audioSSRC b = k" by auto
    show ?thesis
    proof (cases "P b0")
      case True
      from key False have "b0 \<noteq> b" by auto
      with True False e show ?thesis by simp
    next
      case no: False
      have "find P (map snd m) = Some b \<longleftrightarrow>
           (\<forall>e \<in> set (takeWhile (\<lambda>e. fst e \<noteq> k) m). \<not> P (snd e))"
        using Cons.prems mem by (intro Cons.IH) auto
      with no False e show ?thesis by simp
    qed
  qed
qed

subsection \<open>Removal\<close>











section \<open>Listeners, timers and promises\<close>

subsection \<open>What a creation event does to the waiters\<close>

lemma onNew_settled:
  "settled (onNew w v s) = settled s @ (if matches v w then [(w_promise w, Resolved v)] else [])"
  by (simp add: onNew_def matches_def off_new_def clearTimeout_def settle_def Let_def)

lemma onNew_listeners:
  "listeners_new (onNew w v s) =
     (if matches v w then filter (\<lambda>l. w_promise l \<noteq> w_promise w) (listeners_new s)
      else listeners_new s)"
  by (simp add: onNew_def matches_def off_new_def clearTimeout_def settle_def Let_def)

lemma onNew_timeouts:
  "timeouts (onNew w v s) =
     (if matches v w \<and> w_maxTime w \<noteq> None
      then filter (\<lambda>t. t_promise t \<noteq> w_promise w) (timeouts s)
      else timeouts s)"
  by (simp add: onNew_def matches_def off_new_def clearTimeout_def settle_def Let_def)

lemma call_listeners_Nil [simp]: "call_listeners [] v s = s"
  by (simp add: call_listeners_def)

lemma call_listeners_Cons [simp]:
  "call_listeners (w # ws) v s = call_listeners ws v (onNew w v s)"
  by (simp add: call_listeners_def)

lemma call_listeners_settled:
  "settled (call_listeners ws v s) =
     settled s @ map (\<lambda>w. (w_promise w, Resolved v)) (filter (matches v) ws)"
  by (induction ws arbitrary: s) (simp_all add: onNew_settled)

lemma call_listeners_listeners:
  "listeners_new (call_listeners ws v s) =
     filter (\<lambda>l. w_promise l \<notin> w_promise ` set (filter (matches v) ws)) (listeners_new s)"
  by (induction ws arbitrary: s) (auto simp: onNew_listeners intro: filter_cong)

lemma call_listeners_timeouts:
  "timeouts (call_listeners ws v s) =
     filter (\<lambda>t. t_promise t \<notin>
        w_promise ` set (filter (\<lambda>w. matches v w \<and> w_maxTime w \<noteq> None) ws)) (timeouts s)"
  by (induction ws arbitrary: s) (auto simp: onNew_timeouts intro: filter_cong)

subsection \<open>The invariant of the pending calls of resolve\<close>

lemma same_promise_same_waiter:
  "distinct (map w_promise ws) \<Longrightarrow> w \<in> set ws \<Longrightarrow> w' \<in> set ws \<Longrightarrow>
   w_promise w = w_promise w' \<Longrightarrow> w = w'"
  by (simp add: distinct_map inj_on_def)

lemma wf_waiters_finish:
  assumes wf: "wf_waiters s"
    and sub: "set ws \<subseteq> set (listeners_new s)" and dist: "distinct (map w_promise ws)"
    and L: "listeners_new s' = filter (\<lambda>l. w_promise l \<notin> w_promise ` set ws) (listeners_new s)"
    and T: "timeouts s' = filter (\<lambda>t. t_promise t \<notin> MT) (timeouts s)"
    and S: "map fst (settled s') = map fst (settled s) @ map w_promise ws"
    and N: "next_promise s' = next_promise s"
    and MT1: "MT \<subseteq> w_promise ` set ws"
    and MT2: "\<forall>w \<in> set ws. w_maxTime w \<noteq> None \<longrightarrow> w_promise w \<in> MT"
  shows "wf_waiters s'"
proof -
  let ?L = "listeners_new s" and ?S = "settled s" and ?T = "timeouts s"
  from wf have I1: "distinct (map w_promise ?L)"
    and I2: "\<forall>w \<in> set ?L. w_promise w < next_promise s"
    and I3: "\<forall>c \<in> set ?S. fst c < next_promise s"
    and I4: "\<forall>w \<in> set ?L. w_promise w \<notin> fst ` set ?S"
    and I5: "distinct (map fst ?S)"
    and I6: "\<forall>t \<in> set ?T. listener_of t \<in> set ?L"
    and I7: "\<forall>w \<in> set ?L. \<forall>ms. w_maxTime w = Some ms \<longrightarrow>
        \<lparr>t_promise = w_promise w, t_target = w_target w, t_maxTime = ms\<rparr> \<in> set ?T"
    and I8: "\<forall>p < next_promise s. p \<in> fst ` set ?S \<or> p \<in> w_promise ` set ?L"
    unfolding wf_waiters_def by blast+
  have Sset: "fst ` set (settled s') = fst ` set ?S \<union> w_promise ` set ws"
  proof -
    have "set (map fst (settled s')) = set (map fst ?S @ map w_promise ws)"
      by (simp only: S)
    then show ?thesis by simp
  qed
  have J1: "distinct (map w_promise (listeners_new s'))"
    unfolding L using I1 by (rule distinct_map_filter)
  have J2: "\<forall>w \<in> set (listeners_new s'). w_promise w < next_promise s'"
    unfolding L N using I2 by simp
  have J3: "\<forall>c \<in> set (settled s'). fst c < next_promise s'"
  proof
    fix c assume "c \<in> set (settled s')"
    then have "fst c \<in> fst ` set ?S \<union> w_promise ` set ws"
      using Sset by blast
    with I2 I3 sub show "fst c < next_promise s'" unfolding N by auto
  qed
  have J4: "\<forall>w \<in> set (listeners_new s'). w_promise w \<notin> fst ` set (settled s')"
    unfolding L Sset using I4 by simp
  have J5: "distinct (map fst (settled s'))"
  proof -
    have "set (map fst ?S) \<inter> set (map w_promise ws) = {}"
      using I4 sub by force
    with I5 dist show ?thesis unfolding S by simp
  qed
  have J6: "\<forall>t \<in> set (timeouts s'). listener_of t \<in> set (listeners_new s')"
  proof
    fix t assume "t \<in> set (timeouts s')"
    then have t: "t \<in> set ?T" "t_promise t \<notin> MT" unfolding T by simp_all
    with I6 have mem: "listener_of t \<in> set ?L" by blast
    have "w_promise (listener_of t) \<notin> w_promise ` set ws"
    proof
      assume "w_promise (listener_of t) \<in> w_promise ` set ws"
      then obtain w where w: "w \<in> set ws" "w_promise w = w_promise (listener_of t)"
        by force
      with sub have "w \<in> set ?L" by blast
      with I1 have "w = listener_of t" using mem w(2) by (rule same_promise_same_waiter)
      with w(1) MT2 have "t_promise t \<in> MT" by (auto simp: listener_of_def)
      with t(2) show False by simp
    qed
    with mem show "listener_of t \<in> set (listeners_new s')" unfolding L by simp
  qed
  have J7: "\<forall>w \<in> set (listeners_new s'). \<forall>ms. w_maxTime w = Some ms \<longrightarrow>
        \<lparr>t_promise = w_promise w, t_target = w_target w, t_maxTime = ms\<rparr> \<in> set (timeouts s')"
  proof (intro ballI allI impI)
    fix w ms assume "w \<in> set (listeners_new s')" and ms: "w_maxTime w = Some ms"
    then have w: "w \<in> set ?L" "w_promise w \<notin> w_promise ` set ws" unfolding L by simp_all
    with I7 ms have "\<lparr>t_promise = w_promise w, t_target = w_target w, t_maxTime = ms\<rparr> \<in> set ?T"
      by blast
    moreover from w(2) MT1 have "w_promise w \<notin> MT" by blast
    ultimately show "\<lparr>t_promise = w_promise w, t_target = w_target w, t_maxTime = ms\<rparr>
        \<in> set (timeouts s')"
      unfolding T by simp
  qed
  have J8: "\<forall>p < next_promise s'. p \<in> fst ` set (settled s') \<or>
      p \<in> w_promise ` set (listeners_new s')"
  proof (intro allI impI)
    fix p assume "p < next_promise s'"
    with I8 N have "p \<in> fst ` set ?S \<or> p \<in> w_promise ` set ?L" by simp
    then show "p \<in> fst ` set (settled s') \<or> p \<in> w_promise ` set (listeners_new s')"
      unfolding L Sset by auto
  qed
  from J1 J2 J3 J4 J5 J6 J7 J8 show ?thesis unfolding wf_waiters_def by blast
qed

lemma wf_waiters_cong:
  "listeners_new s' = listeners_new s \<Longrightarrow> timeouts s' = timeouts s \<Longrightarrow>
   settled s' = settled s \<Longrightarrow> next_promise s' = next_promise s \<Longrightarrow>
   wf_waiters s' = wf_waiters s"
  by (simp add: wf_waiters_def)

lemma update_settled:
  "settled (update d s) =
     settled s @
       (if map_get (map_entries s) (audioSSRC d) = None
        then map (\<lambda>w. (w_promise w, Resolved d)) (filter (matches d) (listeners_new s))
        else [])"
  by (simp add: update_def Let_def call_listeners_settled)

lemma update_listeners:
  "listeners_new (update d s) =
     (if map_get (map_entries s) (audioSSRC d) = None
      then filter (\<lambda>l. w_promise l \<notin> w_promise ` set (filter (matches d) (listeners_new s)))
             (listeners_new s)
      else listeners_new s)"
  by (simp add: update_def Let_def call_listeners_listeners)

lemma update_timeouts:
  "timeouts (update d s) =
     (if map_get (map_entries s) (audioSSRC d) = None
      then filter (\<lambda>t. t_promise t \<notin> w_promise `
             set (filter (\<lambda>w. matches d w \<and> w_maxTime w \<noteq> None) (listeners_new s)))
             (timeouts s)
      else timeouts s)"
  by (simp add: update_def Let_def call_listeners_timeouts)

lemma update_next_promise [simp]: "next_promise (update d s) = next_promise s"
  by (simp add: update_def Let_def)

lemma delete_waiters:
  "listeners_new (snd (delete t s)) = listeners_new s \<and>
   timeouts (snd (delete t s)) = timeouts s \<and>
   settled (snd (delete t s)) = settled s \<and>
   next_promise (snd (delete t s)) = next_promise s"
  by (cases t) (simp_all split: option.splits prod.splits)

lemma wf_waiters_update: "wf_waiters s \<Longrightarrow> wf_waiters (update d s)"
proof (cases "map_get (map_entries s) (audioSSRC d) = None")
  case True
  assume wf: "wf_waiters s"
  let ?ws = "filter (matches d) (listeners_new s)"
  let ?MT = "w_promise ` set (filter (\<lambda>w. matches d w \<and> w_maxTime w \<noteq> None) (listeners_new s))"
  from wf have "distinct (map w_promise (listeners_new s))" by (simp add: wf_waiters_def)
  then have dist: "distinct (map w_promise ?ws)" by (rule distinct_map_filter)
  show ?thesis
  proof (rule wf_waiters_finish [OF wf _ dist, where MT = ?MT])
    show "set ?ws \<subseteq> set (listeners_new s)" by simp
    show "listeners_new (update d s) =
        filter (\<lambda>l. w_promise l \<notin> w_promise ` set ?ws) (listeners_new s)"
      using True by (simp add: update_listeners)
    show "timeouts (update d s) = filter (\<lambda>t. t_promise t \<notin> ?MT) (timeouts s)"
      using True by (simp add: update_timeouts)
    show "map fst (settled (update d s)) = map fst (settled s) @ map w_promise ?ws"
      using True by (simp add: update_settled comp_def)
    show "next_promise (update d s) = next_promise s" by simp
    show "?MT \<subseteq> w_promise ` set ?ws" by auto
    show "\<forall>w \<in> set ?ws. w_maxTime w \<noteq> None \<longrightarrow> w_promise w \<in> ?MT" by auto
  qed
next
  case False
  then obtain B where B: "map_get (map_entries s) (audioSSRC d) = Some B" by auto
  assume "wf_waiters s"
  moreover have "wf_waiters (update d s) = wf_waiters s"
    by (intro wf_waiters_cong) (simp_all add: update_listeners update_timeouts update_settled B)
  ultimately show ?thesis by simp
qed

lemma find_promise:
  "find (\<lambda>t. t_promise t = p) ts = Some t \<Longrightarrow> t \<in> set ts \<and> t_promise t = p"
  by (induction ts) (auto split: if_splits)

lemma timer_fires_found:
  assumes "find (\<lambda>t. t_promise t = p) (timeouts s) = Some t"
  shows "timer_fires p s =
    s\<lparr>timeouts := filter (\<lambda>t. t_promise t \<noteq> p) (timeouts s),
      listeners_new := filter (\<lambda>w. w_promise w \<noteq> p) (listeners_new s),
      settled := settled s @ [(p, Rejected (Error (t_target t) (t_maxTime t)))]\<rparr>"
  using assms by (simp add: timer_fires_def settle_def off_new_def clearTimeout_def)

lemma timer_fires_not_found:
  "find (\<lambda>t. t_promise t = p) (timeouts s) = None \<Longrightarrow> timer_fires p s = s"
  by (simp add: timer_fires_def)

lemma wf_waiters_timer_fires: "wf_waiters s \<Longrightarrow> wf_waiters (timer_fires p s)"
proof (cases "find (\<lambda>t. t_promise t = p) (timeouts s)")
  case None
  assume "wf_waiters s"
  with None show ?thesis by (simp add: timer_fires_not_found)
next
  case (Some t)
  assume wf: "wf_waiters s"
  note eq = timer_fires_found [OF Some]
  from find_promise [OF Some] have t: "t \<in> set (timeouts s)" "t_promise t = p" by simp_all
  with wf have mem: "listener_of t \<in> set (listeners_new s)" by (simp add: wf_waiters_def)
  have id: "w_promise (listener_of t) = p" using t(2) by (simp add: listener_of_def)
  show ?thesis
  proof (rule wf_waiters_finish [OF wf, where ws = "[listener_of t]" and MT = "{p}"])
    show "set [listener_of t] \<subseteq> set (listeners_new s)" using mem by simp
    show "distinct (map w_promise [listener_of t])" by simp
    show "listeners_new (timer_fires p s) =
        filter (\<lambda>l. w_promise l \<notin> w_promise ` set [listener_of t]) (listeners_new s)"
      unfolding eq using id by simp
    show "timeouts (timer_fires p s) = filter (\<lambda>t. t_promise t \<notin> {p}) (timeouts s)"
      unfolding eq by simp
    show "map fst (settled (timer_fires p s)) =
        map fst (settled s) @ map w_promise [listener_of t]"
      unfolding eq using id by simp
    show "next_promise (timer_fires p s) = next_promise s" unfolding eq by simp
    show "{p} \<subseteq> w_promise ` set [listener_of t]" using id by simp
    show "\<forall>w \<in> set [listener_of t]. w_maxTime w \<noteq> None \<longrightarrow> w_promise w \<in> {p}"
      using id by simp
  qed
qed

lemma resolve_pending:
  assumes "get (Str u) s = None"
  shows "resolve u maxTime s =
    (Pending (next_promise s),
     s\<lparr>timeouts := timeouts s @
          (case maxTime of
             Some ms \<Rightarrow> [\<lparr>t_promise = next_promise s, t_target = u, t_maxTime = ms\<rparr>]
           | None \<Rightarrow> []),
       listeners_new := listeners_new s @
          [\<lparr>w_promise = next_promise s, w_target = u, w_maxTime = maxTime\<rparr>],
       next_promise := Suc (next_promise s)\<rparr>)"
  using assms by (cases maxTime) (simp_all add: resolve_def Let_def)

lemma wf_waiters_resolve: "wf_waiters s \<Longrightarrow> wf_waiters (snd (resolve u maxTime s))"
proof (cases "get (Str u) s")
  case (Some b)
  assume "wf_waiters s"
  with Some show ?thesis by (simp add: resolve_def)
next
  case None
  assume wf: "wf_waiters s"
  let ?L = "listeners_new s" and ?S = "settled s" and ?T = "timeouts s"
  from wf have I1: "distinct (map w_promise ?L)"
    and I2: "\<forall>w \<in> set ?L. w_promise w < next_promise s"
    and I3: "\<forall>c \<in> set ?S. fst c < next_promise s"
    and I4: "\<forall>w \<in> set ?L. w_promise w \<notin> fst ` set ?S"
    and I5: "distinct (map fst ?S)"
    and I6: "\<forall>t \<in> set ?T. listener_of t \<in> set ?L"
    and I7: "\<forall>w \<in> set ?L. \<forall>ms. w_maxTime w = Some ms \<longrightarrow>
        \<lparr>t_promise = w_promise w, t_target = w_target w, t_maxTime = ms\<rparr> \<in> set ?T"
    and I8: "\<forall>p < next_promise s. p \<in> fst ` set ?S \<or> p \<in> w_promise ` set ?L"
    unfolding wf_waiters_def by blast+
  note eq = resolve_pending [OF None, of maxTime]
  have J1: "distinct (map w_promise (listeners_new (snd (resolve u maxTime s))))"
    unfolding eq using I1 I2 by auto
  have J2: "\<forall>w \<in> set (listeners_new (snd (resolve u maxTime s))).
      w_promise w < next_promise (snd (resolve u maxTime s))"
    unfolding eq using I2 by auto
  have J3: "\<forall>c \<in> set (settled (snd (resolve u maxTime s))).
      fst c < next_promise (snd (resolve u maxTime s))"
    unfolding eq using I3 by auto
  have J4: "\<forall>w \<in> set (listeners_new (snd (resolve u maxTime s))).
      w_promise w \<notin> fst ` set (settled (snd (resolve u maxTime s)))"
    unfolding eq using I4 I3 by auto
  have J5: "distinct (map fst (settled (snd (resolve u maxTime s))))"
    unfolding eq using I5 by simp
  have J6: "\<forall>t \<in> set (timeouts (snd (resolve u maxTime s))).
      listener_of t \<in> set (listeners_new (snd (resolve u maxTime s)))"
    unfolding eq using I6 by (cases maxTime) (auto simp: listener_of_def)
  have J7: "\<forall>w \<in> set (listeners_new (snd (resolve u maxTime s))). \<forall>ms. w_maxTime w = Some ms \<longrightarrow>
        \<lparr>t_promise = w_promise w, t_target = w_target w, t_maxTime = ms\<rparr>
          \<in> set (timeouts (snd (resolve u maxTime s)))"
    unfolding eq using I7 by (cases maxTime) auto
  have J8: "\<forall>p < next_promise (snd (resolve u maxTime s)).
      p \<in> fst ` set (settled (snd (resolve u maxTime s))) \<or>
      p \<in> w_promise ` set (listeners_new (snd (resolve u maxTime s)))"
    unfolding eq using I8 by (auto simp: less_Suc_eq)
  from J1 J2 J3 J4 J5 J6 J7 J8 show ?thesis unfolding wf_waiters_def by blast
qed

lemma wf_waiters_exec: "wf_waiters s \<Longrightarrow> wf_waiters (exec x s)"
proof (cases x)
  case (OpDelete t)
  assume "wf_waiters s"
  moreover have "wf_waiters (snd (delete t s)) = wf_waiters s"
    using delete_waiters [of t s] by (intro wf_waiters_cong) simp_all
  ultimately show ?thesis using OpDelete by simp
qed (simp_all add: wf_waiters_update wf_waiters_resolve wf_waiters_timer_fires)

lemma wf_waiters_run: "wf_waiters s \<Longrightarrow> wf_waiters (run ops s)"
  by (induction ops arbitrary: s) (simp_all add: wf_waiters_exec)

lemma wf_waiters_init: "wf_waiters (run ops init)"
  by (rule wf_waiters_run) (simp add: init_def wf_waiters_def)

subsection \<open>Which step settles a promise\<close>

lemma find_not_None: "x \<in> set xs \<Longrightarrow> P x \<Longrightarrow> find P xs \<noteq> None"
  by (auto simp: find_None_iff)

lemma update_stores:
  "(audioSSRC d, spread (map_get (map_entries s) (audioSSRC d)) d) \<in> set (map_entries (update d s))"
  by (rule map_get_Some_mem) (simp add: update_entries map_get_set)

lemma userId_spread: "userId d = Present u \<Longrightarrow> userId (spread e d) = Present u"
  by (cases e) simp_all

lemma new_resolution:
  assumes "(p, Resolved v) \<in> set (settled (exec x s))" and "(p, Resolved v) \<notin> set (settled s)"
  shows "x = OpUpdate v \<and> map_get (map_entries s) (audioSSRC v) = None \<and>
         (\<exists>w \<in> set (listeners_new s). w_promise w = p \<and> userId v = Present (w_target w))"
proof (cases x)
  case (OpUpdate d)
  show ?thesis
  proof (cases "map_get (map_entries s) (audioSSRC d)")
    case None
    with assms OpUpdate have
      "(p, Resolved v) \<in> (\<lambda>w. (w_promise w, Resolved d)) ` set (filter (matches d) (listeners_new s))"
      by (simp add: update_settled)
    then obtain w where "w \<in> set (listeners_new s)" "matches d w" "p = w_promise w" "v = d"
      by auto
    with None OpUpdate show ?thesis by (auto simp: matches_def)
  next
    case (Some B)
    with assms OpUpdate show ?thesis by (simp add: update_settled)
  qed
next
  case (OpDelete t)
  with assms delete_waiters [of t s] show ?thesis by simp
next
  case (OpResolve u mt)
  have "settled (snd (resolve u mt s)) = settled s"
    by (simp add: resolve_def Let_def split: option.splits)
  with assms OpResolve show ?thesis by simp
next
  case (OpTimer q)
  show ?thesis
  proof (cases "find (\<lambda>t. t_promise t = q) (timeouts s)")
    case None
    with assms OpTimer show ?thesis by (simp add: timer_fires_not_found)
  next
    case (Some t)
    with assms OpTimer show ?thesis by (simp add: timer_fires_found)
  qed
qed

subsection \<open>A settled promise is left alone\<close>

lemma calls_of_once:
  "distinct (map fst xs) \<Longrightarrow> length (filter (\<lambda>c. fst c = q) xs) \<le> 1"
proof (induction xs)
  case Nil
  then show ?case by simp
next
  case (Cons c xs)
  show ?case
  proof (cases "fst c = q")
    case True
    from Cons.prems have "fst c \<notin> fst ` set xs" by simp
    with True have "\<forall>x \<in> set xs. fst x \<noteq> q" by blast
    then have "filter (\<lambda>c. fst c = q) xs = []" by (simp add: filter_empty_conv)
    with True show ?thesis by simp
  next
    case False
    with Cons show ?thesis by simp
  qed
qed

lemma outcome_None_calls: "outcome_of p s = None \<longleftrightarrow> calls_of p s = []"
  by (auto simp: outcome_of_def calls_of_def map_of_eq_None_iff filter_empty_conv)

lemma exec_next_promise: "next_promise s \<le> next_promise (exec x s)"
proof (cases x)
  case (OpDelete t)
  with delete_waiters [of t s] show ?thesis by simp
next
  case (OpResolve u mt)
  then show ?thesis by (simp add: resolve_def Let_def split: option.splits)
next
  case (OpTimer q)
  then show ?thesis
    by (cases "find (\<lambda>t. t_promise t = q) (timeouts s)")
       (simp_all add: timer_fires_not_found timer_fires_found)
qed simp

lemma exec_listeners:
  "w \<in> set (listeners_new (exec x s)) \<Longrightarrow> w_promise w < next_promise s \<Longrightarrow>
   w \<in> set (listeners_new s)"
proof (cases x)
  case (OpUpdate d)
  assume "w \<in> set (listeners_new (exec x s))"
  with OpUpdate show ?thesis by (simp add: update_listeners split: if_splits)
next
  case (OpDelete t)
  assume "w \<in> set (listeners_new (exec x s))"
  with OpDelete delete_waiters [of t s] show ?thesis by simp
next
  case (OpResolve u mt)
  assume "w \<in> set (listeners_new (exec x s))" "w_promise w < next_promise s"
  with OpResolve show ?thesis by (auto simp: resolve_def Let_def split: option.splits)
next
  case (OpTimer q)
  assume "w \<in> set (listeners_new (exec x s))"
  with OpTimer show ?thesis
    by (cases "find (\<lambda>t. t_promise t = q) (timeouts s)")
       (simp_all add: timer_fires_not_found timer_fires_found)
qed

lemma run_next_promise: "next_promise s \<le> next_promise (run ops s)"
proof (induction ops arbitrary: s)
  case Nil
  then show ?case by simp
next
  case (Cons x ops)
  have "next_promise s \<le> next_promise (exec x s)" by (rule exec_next_promise)
  also have "\<dots> \<le> next_promise (run ops (exec x s))" by (rule Cons.IH)
  finally show ?case by simp
qed

lemma run_listeners:
  "w \<in> set (listeners_new (run ops s)) \<Longrightarrow> w_promise w < next_promise s \<Longrightarrow>
   w \<in> set (listeners_new s)"
proof (induction ops arbitrary: s)
  case Nil
  then show ?case by simp
next
  case (Cons x ops)
  from Cons.prems(2) exec_next_promise [of s x]
  have lt: "w_promise w < next_promise (exec x s)" by simp
  from Cons.prems(1) have "w \<in> set (listeners_new (run ops (exec x s)))" by simp
  then have "w \<in> set (listeners_new (exec x s))" using lt by (rule Cons.IH)
  then show ?case using Cons.prems(2) by (rule exec_listeners)
qed

lemma run_append: "run (xs @ ys) s = run ys (run xs s)"
  by (induction xs arbitrary: s) simp_all

lemma wf_waitersD:
  assumes "wf_waiters s"
  shows "distinct (map w_promise (listeners_new s))"
    and "w \<in> set (listeners_new s) \<Longrightarrow> w_promise w < next_promise s"
    and "c \<in> set (settled s) \<Longrightarrow> fst c < next_promise s"
    and "w \<in> set (listeners_new s) \<Longrightarrow> w_promise w \<notin> fst ` set (settled s)"
    and "distinct (map fst (settled s))"
    and "t \<in> set (timeouts s) \<Longrightarrow> listener_of t \<in> set (listeners_new s)"
    and "w \<in> set (listeners_new s) \<Longrightarrow> w_maxTime w = Some ms \<Longrightarrow>
        \<lparr>t_promise = w_promise w, t_target = w_target w, t_maxTime = ms\<rparr> \<in> set (timeouts s)"
    and "p < next_promise s \<Longrightarrow>
        p \<in> fst ` set (settled s) \<or> p \<in> w_promise ` set (listeners_new s)"
  using assms unfolding wf_waiters_def by blast+

lemma exec_calls_stable:
  assumes wf: "wf_waiters s" and np: "p \<notin> w_promise ` set (listeners_new s)"
    and lt: "p < next_promise s"
  shows "calls_of p (exec x s) = calls_of p s \<and>
         p \<notin> w_promise ` set (listeners_new (exec x s))"
proof (cases x)
  case (OpUpdate d)
  have "filter (\<lambda>c. fst c = p)
          (map (\<lambda>w. (w_promise w, Resolved d)) (filter (matches d) (listeners_new s))) = []"
    using np by (auto simp: filter_empty_conv)
  then have "calls_of p (update d s) = calls_of p s"
    by (simp add: calls_of_def update_settled)
  moreover have "p \<notin> w_promise ` set (listeners_new (update d s))"
    using np by (auto simp: update_listeners)
  ultimately show ?thesis using OpUpdate by simp
next
  case (OpDelete t)
  with delete_waiters [of t s] np show ?thesis by (simp add: calls_of_def)
next
  case (OpResolve u mt)
  have "settled (snd (resolve u mt s)) = settled s"
    by (simp add: resolve_def Let_def split: option.splits)
  moreover have "p \<notin> w_promise ` set (listeners_new (snd (resolve u mt s)))"
    using np lt by (auto simp: resolve_def Let_def split: option.splits)
  ultimately show ?thesis using OpResolve by (simp add: calls_of_def)
next
  case (OpTimer q)
  show ?thesis
  proof (cases "find (\<lambda>t. t_promise t = q) (timeouts s)")
    case None
    with OpTimer np show ?thesis by (simp add: timer_fires_not_found)
  next
    case (Some t)
    from find_promise [OF Some] have t: "t \<in> set (timeouts s)" "t_promise t = q" by simp_all
    have "listener_of t \<in> set (listeners_new s)" using wf t(1) by (rule wf_waitersD(6))
    then have "w_promise (listener_of t) \<in> w_promise ` set (listeners_new s)" by (rule imageI)
    with t(2) np have "q \<noteq> p" by (auto simp: listener_of_def)
    with OpTimer np show ?thesis
      by (auto simp: timer_fires_found [OF Some] calls_of_def)
  qed
qed

lemma run_calls_stable:
  "wf_waiters s \<Longrightarrow> p \<notin> w_promise ` set (listeners_new s) \<Longrightarrow> p < next_promise s \<Longrightarrow>
   calls_of p (run ops s) = calls_of p s"
proof (induction ops arbitrary: s)
  case Nil
  then show ?case by simp
next
  case (Cons x ops)
  note st = exec_calls_stable [OF Cons.prems, of x]
  have "p < next_promise (exec x s)"
    using Cons.prems(3) exec_next_promise [of s x] by simp
  with st Cons.prems(1) have "calls_of p (run ops (exec x s)) = calls_of p (exec x s)"
    by (intro Cons.IH wf_waiters_exec) simp_all
  with st show ?case by simp
qed

lemma pending_armed:
  assumes s: "s = run ops init" and none: "get (Str u) s = None"
    and s2: "s2 = run ops' (snd (resolve u (Some ms) s))"
    and pend: "outcome_of (next_promise s) s2 = None"
  shows "\<lparr>w_promise = next_promise s, w_target = u, w_maxTime = Some ms\<rparr> \<in> set (listeners_new s2)
    \<and> \<lparr>t_promise = next_promise s, t_target = u, t_maxTime = ms\<rparr> \<in> set (timeouts s2)"
proof -
  let ?p = "next_promise s"
  let ?w = "\<lparr>w_promise = ?p, w_target = u, w_maxTime = Some ms\<rparr>"
  let ?s1 = "snd (resolve u (Some ms) s)"
  have s2': "s2 = run (ops @ OpResolve u (Some ms) # ops') init"
    unfolding s2 s by (simp add: run_append)
  have wf1: "wf_waiters ?s1"
    unfolding s using wf_waiters_init [of "ops @ [OpResolve u (Some ms)]"]
    by (simp add: run_append)
  have wf2: "wf_waiters s2" unfolding s2' by (rule wf_waiters_init)
  have w1: "?w \<in> set (listeners_new ?s1)" and n1: "next_promise ?s1 = Suc ?p"
    by (simp_all add: resolve_pending [OF none])
  have "?p < next_promise s2"
    using run_next_promise [of ?s1 ops'] n1 unfolding s2 by simp
  moreover have "?p \<notin> fst ` set (settled s2)"
    using pend by (simp add: outcome_of_def map_of_eq_None_iff)
  ultimately have "?p \<in> w_promise ` set (listeners_new s2)"
    using wf_waitersD(8) [OF wf2, of ?p] by blast
  then obtain w' where w': "w' \<in> set (listeners_new s2)" "w_promise w' = ?p" by force
  have "w' \<in> set (listeners_new ?s1)"
  proof (rule run_listeners [of w' ops'])
    show "w' \<in> set (listeners_new (run ops' ?s1))" using w'(1) unfolding s2 .
    show "w_promise w' < next_promise ?s1" using w'(2) n1 by simp
  qed
  moreover from wf1 have "distinct (map w_promise (listeners_new ?s1))"
    by (rule wf_waitersD(1))
  ultimately have "w' = ?w"
    using w1 w'(2) same_promise_same_waiter [of "listeners_new ?s1" w' ?w] by simp
  with w'(1) have L: "?w \<in> set (listeners_new s2)" by simp
  with wf2 have "\<lparr>t_promise = w_promise ?w, t_target = w_target ?w, t_maxTime = ms\<rparr>
      \<in> set (timeouts s2)"
    by (rule wf_waitersD(7)) simp
  with L show ?thesis by simp
qed

subsection \<open>The two ways in which a pending promise is settled\<close>

lemma filter_same_promise:
  "distinct (map w_promise ws) \<Longrightarrow> w \<in> set ws \<Longrightarrow>
   filter (\<lambda>l. w_promise l = w_promise w) ws = [w]"
proof (induction ws)
  case Nil
  then show ?case by simp
next
  case (Cons a ws)
  show ?case
  proof (cases "a = w")
    case True
    from Cons.prems(1) have "w_promise a \<notin> w_promise ` set ws" by simp
    with True have "w_promise w \<notin> w_promise ` set ws" by simp
    then have "\<forall>l \<in> set ws. w_promise l \<noteq> w_promise w" by (metis imageI)
    then have "filter (\<lambda>l. w_promise l = w_promise w) ws = []"
      by (simp add: filter_empty_conv)
    with True show ?thesis by simp
  next
    case False
    with Cons.prems have "w \<in> set ws" by simp
    moreover from Cons.prems(1) have "w_promise a \<notin> w_promise ` set ws" by simp
    with \<open>w \<in> set ws\<close> have "w_promise a \<noteq> w_promise w" by (metis imageI)
    ultimately show ?thesis using Cons by simp
  qed
qed

lemma creation_first:
  assumes wf: "wf_waiters s" and w: "w \<in> set (listeners_new s)"
    and ms: "w_maxTime w = Some ms" and pend: "calls_of (w_promise w) s = []"
    and new: "map_get (map_entries s) (audioSSRC d) = None"
    and m: "userId d = Present (w_target w)"
  shows "calls_of (w_promise w) (update d s) = [Resolved d]"
    and "w_promise w \<notin> w_promise ` set (listeners_new (update d s))"
    and "w_promise w \<notin> t_promise ` set (timeouts (update d s))"
proof -
  let ?p = "w_promise w" and ?L = "listeners_new s"
  have dist: "distinct (map w_promise ?L)" using wf by (rule wf_waitersD(1))
  have mw: "matches d w" using m by (simp add: matches_def)
  have "filter (\<lambda>c. fst c = ?p) (map (\<lambda>w. (w_promise w, Resolved d)) (filter (matches d) ?L)) =
      map (\<lambda>w. (w_promise w, Resolved d)) (filter (matches d) (filter (\<lambda>l. w_promise l = ?p) ?L))"
    by (simp add: filter_map comp_def conj_commute)
  also have "\<dots> = [(?p, Resolved d)]"
    using mw by (simp add: filter_same_promise [OF dist w])
  finally show "calls_of ?p (update d s) = [Resolved d]"
    using pend new by (simp add: calls_of_def update_settled)
  have "?p \<in> w_promise ` set (filter (matches d) ?L)" using w mw by simp
  then show "?p \<notin> w_promise ` set (listeners_new (update d s))"
    using new by (auto simp: update_listeners)
  have "?p \<in> w_promise ` set (filter (\<lambda>w. matches d w \<and> w_maxTime w \<noteq> None) ?L)"
    using w mw ms by force
  then show "?p \<notin> t_promise ` set (timeouts (update d s))"
    using new by (auto simp: update_timeouts)
qed

lemma timer_first:
  assumes wf: "wf_waiters s" and w: "w \<in> set (listeners_new s)"
    and ms: "w_maxTime w = Some ms" and pend: "calls_of (w_promise w) s = []"
  shows "calls_of (w_promise w) (timer_fires (w_promise w) s) = [Rejected (Error (w_target w) ms)]"
    and "w_promise w \<notin> w_promise ` set (listeners_new (timer_fires (w_promise w) s))"
    and "w_promise w \<notin> t_promise ` set (timeouts (timer_fires (w_promise w) s))"
proof -
  let ?p = "w_promise w"
  have "\<lparr>t_promise = ?p, t_target = w_target w, t_maxTime = ms\<rparr> \<in> set (timeouts s)"
    using wf w ms by (rule wf_waitersD(7))
  then have "find (\<lambda>t. t_promise t = ?p) (timeouts s) \<noteq> None"
    by (rule find_not_None) simp
  then obtain t where f: "find (\<lambda>t. t_promise t = ?p) (timeouts s) = Some t" by auto
  from find_promise [OF f] have t: "t \<in> set (timeouts s)" "t_promise t = ?p" by simp_all
  have "listener_of t \<in> set (listeners_new s)" using wf t(1) by (rule wf_waitersD(6))
  moreover have "distinct (map w_promise (listeners_new s))" using wf by (rule wf_waitersD(1))
  ultimately have "listener_of t = w"
    using w t(2) same_promise_same_waiter [of "listeners_new s" "listener_of t" w]
    by (simp add: listener_of_def)
  then have tw: "t_target t = w_target w" "t_maxTime t = ms"
    using ms by (auto simp: listener_of_def)
  note eq = timer_fires_found [OF f]
  show "calls_of ?p (timer_fires ?p s) = [Rejected (Error (w_target w) ms)]"
    unfolding eq using pend tw by (simp add: calls_of_def)
  show "?p \<notin> w_promise ` set (listeners_new (timer_fires ?p s))"
    unfolding eq by auto
  show "?p \<notin> t_promise ` set (timeouts (timer_fires ?p s))"
    unfolding eq by auto
qed

lemma timer_not_set:
  "p \<notin> t_promise ` set (timeouts s) \<Longrightarrow> timer_fires p s = s"
  by (rule timer_fires_not_found) (auto simp: find_None_iff)

section \<open>The claims\<close>

subsection \<open>C1\<close>

text \<open>
  Claim C1. In a reachable state that stores the binding \<open>B\<close> under the key
  \<open>K\<close>, \<^verbatim>\<open>update\<close> with data of key \<open>K\<close> stores under \<open>K\<close> the field-wise
  merge: each property that the data carry overrides the one of \<open>B\<close>, each
  property that the data lack is kept from \<open>B\<close>. With a \<^verbatim>\<open>videoSSRC\<close> \<open>V\<close> and
  no \<^verbatim>\<open>userId\<close> in the data, the stored binding is \<open>B\<close> with \<^verbatim>\<open>videoSSRC\<close>
  replaced by \<open>V\<close>.
\<close>

theorem update_merges_fields:
  assumes "map_get (map_entries (run ops init)) K = Some B" and "audioSSRC d = K"
  shows "map_get (map_entries (update d (run ops init))) K =
           Some \<lparr>audioSSRC = K,
                 videoSSRC = (if videoSSRC d = Absent then videoSSRC B else videoSSRC d),
                 userId = (if userId d = Absent then userId B else userId d)\<rparr>
         \<and> (videoSSRC d = Present V \<and> userId d = Absent \<longrightarrow>
              map_get (map_entries (update d (run ops init))) K =
                Some (B\<lparr>videoSSRC := Present V\<rparr>))"
proof -
  have stored: "map_get (map_entries (update d (run ops init))) K = Some (spread (Some B) d)"
    using assms by (simp add: update_entries map_get_set)
  have key: "audioSSRC B = K"
    using assms(1) by (rule stored_audioSSRC)
  have "spread (Some B) d = B\<lparr>videoSSRC := Present V\<rparr>"
    if "videoSSRC d = Present V" "userId d = Absent"
    using that key assms(2) by simp
  with stored assms(2) show ?thesis
    by (simp only: spread_Some_eq) simp
qed

theorem update_merges_fields_witness:
  "map_get (map_entries
      (update \<lparr>audioSSRC = 1, videoSSRC = Present 2, userId = Absent\<rparr>
         (run [OpUpdate \<lparr>audioSSRC = 1, videoSSRC = Absent, userId = Present ''u1''\<rparr>] init))) 1 =
     Some \<lparr>audioSSRC = 1, videoSSRC = Present 2, userId = Present ''u1''\<rparr>"
proof -
  have h: "map_get (map_entries
      (run [OpUpdate \<lparr>audioSSRC = 1, videoSSRC = Absent, userId = Present ''u1''\<rparr>] init)) 1 =
     Some \<lparr>audioSSRC = 1, videoSSRC = Absent, userId = Present ''u1''\<rparr>"
    by (simp add: update_entries init_def)
  show ?thesis
    using update_merges_fields [OF h, of "\<lparr>audioSSRC = 1, videoSSRC = Present 2, userId = Absent\<rparr>" 2]
    by simp
qed

subsection \<open>C2\<close>

text \<open>
  Claim C2. An \<^verbatim>\<open>update\<close> for a key that the map lacks emits the creation
  event and then the update event, both with the new binding, which is the
  argument, the update event with no previous binding. An \<^verbatim>\<open>update\<close> for a
  key that the map has emits the update event alone, with the previous binding
  and the merged one: the key of the argument, and each of \<^verbatim>\<open>videoSSRC\<close> and
  \<^verbatim>\<open>userId\<close> from the argument when the argument has it, from the previous
  binding otherwise; that binding is the one stored. In a run of updates on a
  new object, each key that occurs has one creation event and as many update
  events as updates; two updates of one key emit one creation and two update
  events.
\<close>

theorem creation_once:
  "(map_get (map_entries s) (audioSSRC d) = None \<longrightarrow>
      emitted (update d s) = emitted s @ [EvNew d, EvUpdate None d]
      \<and> map_get (map_entries (update d s)) (audioSSRC d) = Some d)
   \<and> (map_get (map_entries s) (audioSSRC d) = Some B \<longrightarrow>
      emitted (update d s) = emitted s @
        [EvUpdate (Some B)
           \<lparr>audioSSRC = audioSSRC d,
            videoSSRC = (if videoSSRC d = Absent then videoSSRC B else videoSSRC d),
            userId = (if userId d = Absent then userId B else userId d)\<rparr>]
      \<and> map_get (map_entries (update d s)) (audioSSRC d) =
          Some \<lparr>audioSSRC = audioSSRC d,
                videoSSRC = (if videoSSRC d = Absent then videoSSRC B else videoSSRC d),
                userId = (if userId d = Absent then userId B else userId d)\<rparr>)
   \<and> length (filter (is_new_for K) (emitted (run (map OpUpdate ds) init))) =
       (if K \<in> audioSSRC ` set ds then 1 else 0)
   \<and> length (filter (is_update_for K) (emitted (run (map OpUpdate ds) init))) =
       length (filter (\<lambda>d. audioSSRC d = K) ds)
   \<and> (audioSSRC d2 = audioSSRC d1 \<longrightarrow>
       emitted (run [OpUpdate d1, OpUpdate d2] init) =
         [EvNew d1, EvUpdate None d1,
          EvUpdate (Some d1)
            \<lparr>audioSSRC = audioSSRC d2,
             videoSSRC = (if videoSSRC d2 = Absent then videoSSRC d1 else videoSSRC d2),
             userId = (if userId d2 = Absent then userId d1 else userId d2)\<rparr>])"
proof (intro conjI)
  show "length (filter (is_new_for K) (emitted (run (map OpUpdate ds) init))) =
       (if K \<in> audioSSRC ` set ds then 1 else 0)"
    by (simp add: count_new_updates) (simp add: init_def)
  show "length (filter (is_update_for K) (emitted (run (map OpUpdate ds) init))) =
       length (filter (\<lambda>d. audioSSRC d = K) ds)"
    by (simp add: count_update_updates) (simp add: init_def)
  show "audioSSRC d2 = audioSSRC d1 \<longrightarrow>
       emitted (run [OpUpdate d1, OpUpdate d2] init) =
         [EvNew d1, EvUpdate None d1,
          EvUpdate (Some d1)
            \<lparr>audioSSRC = audioSSRC d2,
             videoSSRC = (if videoSSRC d2 = Absent then videoSSRC d1 else videoSSRC d2),
             userId = (if userId d2 = Absent then userId d1 else userId d2)\<rparr>]"
    by (simp add: update_emitted update_entries map_get_set spread_slot_if) (simp add: init_def)
qed (simp_all add: update_emitted update_entries map_get_set spread_slot_if)

theorem creation_once_witness:
  "emitted (update \<lparr>audioSSRC = 1, videoSSRC = Absent, userId = Present ''u1''\<rparr> init) =
     [EvNew \<lparr>audioSSRC = 1, videoSSRC = Absent, userId = Present ''u1''\<rparr>,
      EvUpdate None \<lparr>audioSSRC = 1, videoSSRC = Absent, userId = Present ''u1''\<rparr>]
   \<and> emitted (run [OpUpdate \<lparr>audioSSRC = 1, videoSSRC = Absent, userId = Present ''u1''\<rparr>,
                 OpUpdate \<lparr>audioSSRC = 1, videoSSRC = Present 2, userId = Absent\<rparr>] init) =
     [EvNew \<lparr>audioSSRC = 1, videoSSRC = Absent, userId = Present ''u1''\<rparr>,
      EvUpdate None \<lparr>audioSSRC = 1, videoSSRC = Absent, userId = Present ''u1''\<rparr>,
      EvUpdate (Some \<lparr>audioSSRC = 1, videoSSRC = Absent, userId = Present ''u1''\<rparr>)
        \<lparr>audioSSRC = 1, videoSSRC = Present 2, userId = Present ''u1''\<rparr>]
   \<and> emitted (update \<lparr>audioSSRC = 1, videoSSRC = Absent, userId = Present ''u2''\<rparr>
        (update \<lparr>audioSSRC = 1, videoSSRC = Present 2, userId = Present ''u1''\<rparr> init)) =
     emitted (update \<lparr>audioSSRC = 1, videoSSRC = Present 2, userId = Present ''u1''\<rparr> init) @
     [EvUpdate (Some \<lparr>audioSSRC = 1, videoSSRC = Present 2, userId = Present ''u1''\<rparr>)
        \<lparr>audioSSRC = 1, videoSSRC = Present 2, userId = Present ''u2''\<rparr>]"
proof -
  let ?a = "\<lparr>audioSSRC = 1, videoSSRC = Absent, userId = Present ''u1''\<rparr>"
  let ?b = "\<lparr>audioSSRC = 1, videoSSRC = Present 2, userId = Absent\<rparr>"
  let ?c = "\<lparr>audioSSRC = 1, videoSSRC = Present 2, userId = Present ''u1''\<rparr>"
  let ?e = "\<lparr>audioSSRC = 1, videoSSRC = Absent, userId = Present ''u2''\<rparr>"
  have h1: "map_get (map_entries init) (audioSSRC ?a) = None" by (simp add: init_def)
  have h2: "audioSSRC ?b = audioSSRC ?a" by simp
  have h3: "map_get (map_entries (update ?c init)) (audioSSRC ?e) = Some ?c"
    by (simp add: update_entries init_def)
  have e: "emitted init = []" by (simp add: init_def)
  note th = creation_once [of init ?a ?a 1 "[]" ?b ?a]
  note th2 = creation_once [of "update ?c init" ?e ?c 1 "[]" ?b ?a]
  from th h1 have "emitted (update ?a init) = emitted init @ [EvNew ?a, EvUpdate None ?a]"
    by blast
  with e have 1: "emitted (update ?a init) = [EvNew ?a, EvUpdate None ?a]" by simp
  from th h2 have 2: "emitted (run [OpUpdate ?a, OpUpdate ?b] init) =
      [EvNew ?a, EvUpdate None ?a,
       EvUpdate (Some ?a)
         \<lparr>audioSSRC = audioSSRC ?b,
          videoSSRC = (if videoSSRC ?b = Absent then videoSSRC ?a else videoSSRC ?b),
          userId = (if userId ?b = Absent then userId ?a else userId ?b)\<rparr>]" by blast
  from th2 h3 have 3: "emitted (update ?e (update ?c init)) = emitted (update ?c init) @
      [EvUpdate (Some ?c)
         \<lparr>audioSSRC = audioSSRC ?e,
          videoSSRC = (if videoSSRC ?e = Absent then videoSSRC ?c else videoSSRC ?e),
          userId = (if userId ?e = Absent then userId ?c else userId ?e)\<rparr>]" by blast
  from 1 2 3 show ?thesis by simp
qed

subsection \<open>C3\<close>

text \<open>
  Claim C3, as the code has it. Two bindings may carry the same
  \<^verbatim>\<open>userId\<close> under different keys, and then lookup by user id gives the one
  that comes first in the map, which is not what lookup by the key of the other
  gives. For a stored binding with a \<^verbatim>\<open>userId\<close>, lookup by its key gives
  that binding, and lookup by its user id gives the same exactly when no entry
  before it in the map carries that user id.
\<close>

theorem dual_key_first:
  assumes "(k, b) \<in> set (map_entries (run ops init))" and "userId b = Present u"
  shows "get (Num k) (run ops init) = Some b
    \<and> (get (Str u) (run ops init) = get (Num k) (run ops init) \<longleftrightarrow>
           (\<forall>e \<in> set (takeWhile (\<lambda>e. fst e \<noteq> k) (map_entries (run ops init))).
              userId (snd e) \<noteq> Present u))"
proof -
  let ?m = "map_entries (run ops init)"
  have wf: "distinct (map fst ?m)" "\<forall>(k, b) \<in> set ?m. audioSSRC b = k"
    using wf_map_init [of ops] by (simp_all add: wf_map_def)
  have num: "get (Num k) (run ops init) = Some b"
    using wf(1) assms(1) by (simp add: map_get_distinct)
  have "find (\<lambda>d. userId d = Present u) (map snd ?m) = Some b \<longleftrightarrow>
      (\<forall>e \<in> set (takeWhile (\<lambda>e. fst e \<noteq> k) ?m). \<not> userId (snd e) = Present u)"
    using wf assms by (rule find_first_owner)
  with num show ?thesis
    by (simp add: map_values_def)
qed

theorem dual_key_first_witness:
  "get (Str ''v'')
     (run [OpUpdate \<lparr>audioSSRC = 1, videoSSRC = Absent, userId = Present ''u''\<rparr>,
           OpUpdate \<lparr>audioSSRC = 2, videoSSRC = Absent, userId = Present ''v''\<rparr>] init) =
   get (Num 2)
     (run [OpUpdate \<lparr>audioSSRC = 1, videoSSRC = Absent, userId = Present ''u''\<rparr>,
           OpUpdate \<lparr>audioSSRC = 2, videoSSRC = Absent, userId = Present ''v''\<rparr>] init)"
proof -
  let ?a = "\<lparr>audioSSRC = 1, videoSSRC = Absent, userId = Present ''u''\<rparr>"
  let ?b = "\<lparr>audioSSRC = 2, videoSSRC = Absent, userId = Present ''v''\<rparr>"
  let ?s = "run [OpUpdate ?a, OpUpdate ?b] init"
  have h1: "(2, ?b) \<in> set (map_entries ?s)" by (simp add: update_entries init_def)
  have h2: "userId ?b = Present ''v''" by simp
  have h3: "\<forall>e \<in> set (takeWhile (\<lambda>e. fst e \<noteq> 2) (map_entries ?s)).
      userId (snd e) \<noteq> Present ''v''"
    by (simp add: update_entries init_def)
  from dual_key_first [OF h1 h2] h3 show ?thesis by blast
qed

theorem dual_key_counterexample:
  "get (Num 2)
     (run [OpUpdate \<lparr>audioSSRC = 1, videoSSRC = Absent, userId = Present ''u''\<rparr>,
           OpUpdate \<lparr>audioSSRC = 2, videoSSRC = Absent, userId = Present ''u''\<rparr>] init) \<noteq>
   get (Str ''u'')
     (run [OpUpdate \<lparr>audioSSRC = 1, videoSSRC = Absent, userId = Present ''u''\<rparr>,
           OpUpdate \<lparr>audioSSRC = 2, videoSSRC = Absent, userId = Present ''u''\<rparr>] init)"
  by (simp add: update_entries init_def map_values_def)

subsection \<open>C4\<close>

text \<open>
  Claim C4. Let \<^verbatim>\<open>resolve\<close> be called with a \<^verbatim>\<open>maxTime\<close> in a reachable
  state without a binding for the target, and let anything happen afterwards
  that leaves its promise \<open>p\<close> pending. Then its listener is still registered
  and its timer still set. If now an \<^verbatim>\<open>update\<close> creates a binding with the
  target as \<^verbatim>\<open>userId\<close>, the promise is resolved with that binding, the
  listener is removed and the timer cleared, so that the timer callback no
  longer runs, and in every continuation this stays the only call of a function
  of \<open>p\<close>. If instead the timer fires, the promise is rejected with the error
  of the target and \<^verbatim>\<open>maxTime\<close>, listener and timer are gone, and in every
  continuation this stays the only call. In no continuation is a promise
  settled twice. The passing of time is seen as the event loop running the
  timer callback.
\<close>

theorem resolve_timeout_exclusive:
  assumes s: "s = run ops init" and none: "get (Str u) s = None"
    and p: "p = next_promise s"
    and s2: "s2 = run ops' (snd (resolve u (Some ms) s))"
    and pend: "outcome_of p s2 = None"
  shows "fst (resolve u (Some ms) s) = Pending p
    \<and> \<lparr>w_promise = p, w_target = u, w_maxTime = Some ms\<rparr> \<in> set (listeners_new s2)
    \<and> \<lparr>t_promise = p, t_target = u, t_maxTime = ms\<rparr> \<in> set (timeouts s2)
    \<and> (map_get (map_entries s2) (audioSSRC d) = None \<and> userId d = Present u \<longrightarrow>
         calls_of p (update d s2) = [Resolved d]
         \<and> p \<notin> w_promise ` set (listeners_new (update d s2))
         \<and> p \<notin> t_promise ` set (timeouts (update d s2))
         \<and> timer_fires p (update d s2) = update d s2
         \<and> calls_of p (run ops'' (update d s2)) = [Resolved d])
    \<and> calls_of p (timer_fires p s2) = [Rejected (Error u ms)]
    \<and> p \<notin> w_promise ` set (listeners_new (timer_fires p s2))
    \<and> p \<notin> t_promise ` set (timeouts (timer_fires p s2))
    \<and> calls_of p (run ops'' (timer_fires p s2)) = [Rejected (Error u ms)]
    \<and> length (calls_of q (run ops'' s2)) \<le> 1"
proof -
  let ?w = "\<lparr>w_promise = p, w_target = u, w_maxTime = Some ms\<rparr>"
  have s2': "s2 = run (ops @ OpResolve u (Some ms) # ops') init"
    unfolding s2 s by (simp add: run_append)
  have wf2: "wf_waiters s2" unfolding s2' by (rule wf_waiters_init)
  have A: "fst (resolve u (Some ms) s) = Pending p"
    unfolding p by (simp add: resolve_pending [OF none])
  have armed: "?w \<in> set (listeners_new s2)
      \<and> \<lparr>t_promise = p, t_target = u, t_maxTime = ms\<rparr> \<in> set (timeouts s2)"
    unfolding p using s none s2 pend [unfolded p] by (rule pending_armed)
  then have w: "?w \<in> set (listeners_new s2)" by simp
  have wms: "w_maxTime ?w = Some ms" by simp
  have calls: "calls_of (w_promise ?w) s2 = []"
    using pend by (simp add: outcome_None_calls)
  have lt: "p < next_promise s2" using wf_waitersD(2) [OF wf2 w] by simp
  have stable: "calls_of p (run ops'' s3) = calls_of p s3"
    if "wf_waiters s3" "p \<notin> w_promise ` set (listeners_new s3)" "next_promise s3 = next_promise s2"
    for s3
    using that lt by (intro run_calls_stable) simp_all
  have C: "calls_of p (update d s2) = [Resolved d]
         \<and> p \<notin> w_promise ` set (listeners_new (update d s2))
         \<and> p \<notin> t_promise ` set (timeouts (update d s2))
         \<and> timer_fires p (update d s2) = update d s2
         \<and> calls_of p (run ops'' (update d s2)) = [Resolved d]"
    if new: "map_get (map_entries s2) (audioSSRC d) = None" and m: "userId d = Present u"
  proof -
    have m': "userId d = Present (w_target ?w)" using m by simp
    note c = creation_first [OF wf2 w wms calls new m', simplified]
    have "timer_fires p (update d s2) = update d s2"
      using c(3) by (rule timer_not_set)
    moreover have "calls_of p (run ops'' (update d s2)) = calls_of p (update d s2)"
      using wf2 c(2) by (intro stable wf_waiters_update) simp_all
    ultimately show ?thesis using c by simp
  qed
  note t = timer_first [OF wf2 w wms calls, simplified]
  have "calls_of p (run ops'' (timer_fires p s2)) = calls_of p (timer_fires p s2)"
  proof (rule stable)
    show "wf_waiters (timer_fires p s2)" using wf2 by (rule wf_waiters_timer_fires)
    show "p \<notin> w_promise ` set (listeners_new (timer_fires p s2))" by (rule t(2))
    show "next_promise (timer_fires p s2) = next_promise s2"
      by (cases "find (\<lambda>t. t_promise t = p) (timeouts s2)")
         (simp_all add: timer_fires_not_found timer_fires_found)
  qed
  with t have D: "calls_of p (timer_fires p s2) = [Rejected (Error u ms)]
    \<and> p \<notin> w_promise ` set (listeners_new (timer_fires p s2))
    \<and> p \<notin> t_promise ` set (timeouts (timer_fires p s2))
    \<and> calls_of p (run ops'' (timer_fires p s2)) = [Rejected (Error u ms)]"
    by simp
  have "wf_waiters (run ops'' s2)" using wf2 by (rule wf_waiters_run)
  then have "distinct (map fst (settled (run ops'' s2)))" by (rule wf_waitersD(5))
  then have E: "length (calls_of q (run ops'' s2)) \<le> 1"
    unfolding calls_of_def length_map by (rule calls_of_once)
  from A armed C D E show ?thesis by simp
qed

theorem resolve_timeout_exclusive_witness:
  "calls_of 0 (run [OpResolve ''P'' (Some 50),
                    OpUpdate \<lparr>audioSSRC = 7, videoSSRC = Absent, userId = Present ''P''\<rparr>,
                    OpTimer 0] init) =
     [Resolved \<lparr>audioSSRC = 7, videoSSRC = Absent, userId = Present ''P''\<rparr>]
   \<and> calls_of 0 (run [OpResolve ''P'' (Some 50), OpTimer 0,
                    OpUpdate \<lparr>audioSSRC = 7, videoSSRC = Absent, userId = Present ''P''\<rparr>] init) =
     [Rejected (Error ''P'' 50)]"
proof -
  let ?d = "\<lparr>audioSSRC = 7, videoSSRC = Absent, userId = Present ''P''\<rparr>"
  let ?s2 = "snd (resolve ''P'' (Some 50) init)"
  have h1: "init = run [] init" by simp
  have h2: "get (Str ''P'') init = None" by (simp add: init_def map_values_def)
  have h3: "0 = next_promise init" by (simp add: init_def)
  have h4: "?s2 = run [] (snd (resolve ''P'' (Some 50) init))" by simp
  have h5: "outcome_of 0 ?s2 = None"
    by (simp add: outcome_of_def resolve_pending [OF h2]) (simp add: init_def)
  have h6: "map_get (map_entries ?s2) (audioSSRC ?d) = None \<and> userId ?d = Present ''P''"
    by (simp add: init_def)
  note a = resolve_timeout_exclusive [OF h1 h2 h3 h4 h5, of ?d "[OpTimer 0]" 0]
  note b = resolve_timeout_exclusive [OF h1 h2 h3 h4 h5, of ?d "[OpUpdate ?d]" 0]
  from a h6 have "calls_of 0 (run [OpTimer 0] (update ?d ?s2)) = [Resolved ?d]" by blast
  moreover from b have "calls_of 0 (run [OpUpdate ?d] (timer_fires 0 ?s2)) =
      [Rejected (Error ''P'' 50)]" by blast
  ultimately show ?thesis by simp
qed

subsection \<open>C5\<close>

text \<open>
  Claim C5. When \<^verbatim>\<open>get(target)\<close> finds a binding, \<^verbatim>\<open>resolve\<close> returns a
  promise already fulfilled with it and leaves the object as it was: no
  listener is registered and no timer is set.
\<close>

theorem resolve_fast_path:
  "get (Str u) s = Some b \<Longrightarrow> resolve u maxTime s = (Fulfilled b, s)"
  by (simp add: resolve_def)

theorem resolve_fast_path_witness:
  "resolve ''P'' (Some 50)
     (update \<lparr>audioSSRC = 7, videoSSRC = Absent, userId = Present ''P''\<rparr> init) =
   (Fulfilled \<lparr>audioSSRC = 7, videoSSRC = Absent, userId = Present ''P''\<rparr>,
    update \<lparr>audioSSRC = 7, videoSSRC = Absent, userId = Present ''P''\<rparr> init)"
proof -
  have h: "get (Str ''P'') (update \<lparr>audioSSRC = 7, videoSSRC = Absent, userId = Present ''P''\<rparr> init)
     = Some \<lparr>audioSSRC = 7, videoSSRC = Absent, userId = Present ''P''\<rparr>"
    by (simp add: update_entries init_def map_values_def)
  show ?thesis using resolve_fast_path [OF h] by simp
qed

subsection \<open>C6\<close>




subsection \<open>C7\<close>

text \<open>
  Claim C7. In a reachable state \<^verbatim>\<open>get\<close> with a number returns the binding of
  the entry with that key, and nothing when there is no such key. With a
  string it returns the binding of the first entry, in the order of the map,
  whose \<^verbatim>\<open>userId\<close> is the string, and nothing when no binding has it; no
  case raises. The order of the map is the order of insertion: \<^verbatim>\<open>update\<close>
  leaves the keys as they are when the key is there and appends it otherwise.
\<close>

theorem get_semantics:
  "(get (Num n) (run ops init) = Some b \<longleftrightarrow> (n, b) \<in> set (map_entries (run ops init)))
   \<and> (get (Num n) s = None \<longleftrightarrow> n \<notin> set (map_keys (map_entries s)))
   \<and> (get (Str u) s = Some b \<longleftrightarrow>
        (\<exists>i < length (map_entries s).
           snd (map_entries s ! i) = b \<and> userId b = Present u \<and>
           (\<forall>j < i. userId (snd (map_entries s ! j)) \<noteq> Present u)))
   \<and> (get (Str u) s = None \<longleftrightarrow>
        (\<forall>b \<in> set (map_values (map_entries s)). userId b \<noteq> Present u))
   \<and> map_keys (map_entries (update d s)) =
        (if audioSSRC d \<in> set (map_keys (map_entries s)) then map_keys (map_entries s)
         else map_keys (map_entries s) @ [audioSSRC d])"
proof (intro conjI)
  show "get (Num n) (run ops init) = Some b \<longleftrightarrow> (n, b) \<in> set (map_entries (run ops init))"
    by (rule get_Num_reachable)
  show "get (Num n) s = None \<longleftrightarrow> n \<notin> set (map_keys (map_entries s))"
    by (simp add: map_get_None_iff map_keys_def)
  show "get (Str u) s = Some b \<longleftrightarrow>
        (\<exists>i < length (map_entries s).
           snd (map_entries s ! i) = b \<and> userId b = Present u \<and>
           (\<forall>j < i. userId (snd (map_entries s ! j)) \<noteq> Present u))"
    by (rule get_Str_Some)
  show "get (Str u) s = None \<longleftrightarrow>
        (\<forall>b \<in> set (map_values (map_entries s)). userId b \<noteq> Present u)"
    by (simp add: find_None_iff map_values_def)
  show "map_keys (map_entries (update d s)) =
        (if audioSSRC d \<in> set (map_keys (map_entries s)) then map_keys (map_entries s)
         else map_keys (map_entries s) @ [audioSSRC d])"
    by (simp add: update_entries map_keys_def map_keys_set)
qed

theorem get_semantics_witness:
  "get (Str ''u'')
     (run [OpUpdate \<lparr>audioSSRC = 1, videoSSRC = Absent, userId = Present ''u''\<rparr>,
           OpUpdate \<lparr>audioSSRC = 2, videoSSRC = Absent, userId = Present ''u''\<rparr>] init) =
   Some \<lparr>audioSSRC = 1, videoSSRC = Absent, userId = Present ''u''\<rparr>
   \<and> (2, \<lparr>audioSSRC = 2, videoSSRC = Absent, userId = Present ''u''\<rparr>) \<in> set (map_entries
     (run [OpUpdate \<lparr>audioSSRC = 1, videoSSRC = Absent, userId = Present ''u''\<rparr>,
           OpUpdate \<lparr>audioSSRC = 2, videoSSRC = Absent, userId = Present ''u''\<rparr>] init))
   \<and> get (Str ''v'')
     (run [OpUpdate \<lparr>audioSSRC = 1, videoSSRC = Absent, userId = Present ''u''\<rparr>,
           OpUpdate \<lparr>audioSSRC = 2, videoSSRC = Absent, userId = Present ''u''\<rparr>] init) = None"
proof -
  let ?a = "\<lparr>audioSSRC = 1, videoSSRC = Absent, userId = Present ''u''\<rparr>"
  let ?b = "\<lparr>audioSSRC = 2, videoSSRC = Absent, userId = Present ''u''\<rparr>"
  let ?s = "run [OpUpdate ?a, OpUpdate ?b] init"
  note g = get_semantics [of 2 "[OpUpdate ?a, OpUpdate ?b]" ?b ?s "''u''" ?a]
  note g2 = get_semantics [of 1 "[OpUpdate ?a, OpUpdate ?b]" ?a ?s "''u''" ?a]
  note h = get_semantics [of 2 "[OpUpdate ?a, OpUpdate ?b]" ?b ?s "''v''" ?a]
  have "get (Num 2) ?s = Some ?b" by (simp add: update_entries init_def)
  with g have 1: "(2, ?b) \<in> set (map_entries ?s)" by blast
  have "\<exists>i < length (map_entries ?s).
           snd (map_entries ?s ! i) = ?a \<and> userId ?a = Present ''u'' \<and>
           (\<forall>j < i. userId (snd (map_entries ?s ! j)) \<noteq> Present ''u'')"
    by (rule exI [of _ 0]) (simp add: update_entries init_def)
  with g2 have 2: "get (Str ''u'') ?s = Some ?a" by blast
  have "\<forall>b \<in> set (map_values (map_entries ?s)). userId b \<noteq> Present ''v''"
    by (simp add: update_entries init_def map_values_def)
  with h have 3: "get (Str ''v'') ?s = None" by blast
  from 1 2 3 show ?thesis by blast
qed

subsection \<open>C8\<close>

text \<open>
  Claim C8. An \<^verbatim>\<open>update\<close> for a key that the map has emits the update event
  only and leaves listeners, timers and promises as they are, also when the
  data name the target of a registered waiter: the waiter stays registered
  although \<^verbatim>\<open>get\<close> now finds a binding for its target. And whenever a step
  resolves a promise, the step is an \<^verbatim>\<open>update\<close> that creates a binding,
  with the creation event in the trace, and the binding carries the target of
  the waiter of that promise as its \<^verbatim>\<open>userId\<close>. A call of \<^verbatim>\<open>resolve\<close> for a
  target that already has a binding registers no waiter at all, so that nothing
  that happens later reaches it.
\<close>

theorem resolve_ignores_updates:
  "(map_get (map_entries s) (audioSSRC d) = Some B \<longrightarrow>
      listeners_new (update d s) = listeners_new s \<and> timeouts (update d s) = timeouts s \<and>
      settled (update d s) = settled s \<and>
      emitted (update d s) = emitted s @ [EvUpdate (Some B) (spread (Some B) d)])
   \<and> (map_get (map_entries s) (audioSSRC d) = Some B \<and> w \<in> set (listeners_new s) \<and>
       userId d = Present (w_target w) \<longrightarrow>
      w \<in> set (listeners_new (update d s)) \<and> get (Str (w_target w)) (update d s) \<noteq> None)
   \<and> ((p, Resolved v) \<in> set (settled (exec x s)) \<and> (p, Resolved v) \<notin> set (settled s) \<longrightarrow>
      x = OpUpdate v \<and> map_get (map_entries s) (audioSSRC v) = None \<and>
      emitted (exec x s) = emitted s @ [EvNew v, EvUpdate None v] \<and>
      (\<exists>w \<in> set (listeners_new s). w_promise w = p \<and> userId v = Present (w_target w)))
   \<and> (get (Str u) s = Some b \<longrightarrow> snd (resolve u maxTime s) = s)"
proof (intro conjI impI)
  assume "get (Str u) s = Some b"
  then show "snd (resolve u maxTime s) = s" by (simp add: resolve_def)
next
  assume "map_get (map_entries s) (audioSSRC d) = Some B \<and> w \<in> set (listeners_new s) \<and>
       userId d = Present (w_target w)"
  then have B: "map_get (map_entries s) (audioSSRC d) = Some B"
    and w: "w \<in> set (listeners_new s)" and u: "userId d = Present (w_target w)" by simp_all
  show "w \<in> set (listeners_new (update d s))" using w B by (simp add: update_listeners)
  have "spread (Some B) d \<in> set (map_values (map_entries (update d s)))"
    using update_stores [of d s] B by (force simp: map_values_def)
  moreover have "userId (spread (Some B) d) = Present (w_target w)"
    using u by (rule userId_spread)
  ultimately show "get (Str (w_target w)) (update d s) \<noteq> None"
    unfolding get.simps by (rule find_not_None)
next
  assume a: "(p, Resolved v) \<in> set (settled (exec x s)) \<and> (p, Resolved v) \<notin> set (settled s)"
  then have n: "x = OpUpdate v \<and> map_get (map_entries s) (audioSSRC v) = None \<and>
         (\<exists>w \<in> set (listeners_new s). w_promise w = p \<and> userId v = Present (w_target w))"
    by (intro new_resolution) simp_all
  then show "x = OpUpdate v" "map_get (map_entries s) (audioSSRC v) = None"
    "\<exists>w \<in> set (listeners_new s). w_promise w = p \<and> userId v = Present (w_target w)"
    by simp_all
  from n show "emitted (exec x s) = emitted s @ [EvNew v, EvUpdate None v]"
    by (simp add: update_emitted)
qed (simp_all add: update_listeners update_timeouts update_settled update_emitted)

theorem resolve_ignores_updates_witness:
  "settled (update \<lparr>audioSSRC = 1, videoSSRC = Absent, userId = Present ''p''\<rparr>
      (run [OpUpdate \<lparr>audioSSRC = 1, videoSSRC = Absent, userId = Present ''q''\<rparr>,
            OpResolve ''p'' None] init)) = []
   \<and> \<lparr>w_promise = 0, w_target = ''p'', w_maxTime = None\<rparr> \<in> set (listeners_new
     (update \<lparr>audioSSRC = 1, videoSSRC = Absent, userId = Present ''p''\<rparr>
      (run [OpUpdate \<lparr>audioSSRC = 1, videoSSRC = Absent, userId = Present ''q''\<rparr>,
            OpResolve ''p'' None] init)))
   \<and> get (Str ''p'')
     (update \<lparr>audioSSRC = 1, videoSSRC = Absent, userId = Present ''p''\<rparr>
      (run [OpUpdate \<lparr>audioSSRC = 1, videoSSRC = Absent, userId = Present ''q''\<rparr>,
            OpResolve ''p'' None] init)) \<noteq> None"
proof -
  let ?q = "\<lparr>audioSSRC = 1, videoSSRC = Absent, userId = Present ''q''\<rparr>"
  let ?d = "\<lparr>audioSSRC = 1, videoSSRC = Absent, userId = Present ''p''\<rparr>"
  let ?w = "\<lparr>w_promise = 0, w_target = ''p'', w_maxTime = None\<rparr>"
  let ?s = "run [OpUpdate ?q, OpResolve ''p'' None] init"
  have g: "get (Str ''p'') (update ?q init) = None"
    by (simp add: update_entries init_def map_values_def)
  have s: "?s = (update ?q init)\<lparr>timeouts := timeouts (update ?q init),
      listeners_new := listeners_new (update ?q init) @ [?w],
      next_promise := Suc 0\<rparr>"
    by (simp add: resolve_pending [OF g]) (simp add: init_def)
  have h1: "map_get (map_entries ?s) (audioSSRC ?d) = Some ?q"
    by (simp add: update_entries init_def)
  have h2: "?w \<in> set (listeners_new ?s)" unfolding s by simp
  have h3: "settled ?s = []" unfolding s by (simp add: update_settled init_def)
  have h4: "userId ?d = Present (w_target ?w)" by simp
  note a = resolve_ignores_updates [of ?s ?d ?q ?w 0 ?d "OpUpdate ?d"]
  from a h1 have "settled (update ?d ?s) = settled ?s" by blast
  with h3 have 1: "settled (update ?d ?s) = []" by simp
  from a h1 h2 h4 have "?w \<in> set (listeners_new (update ?d ?s)) \<and>
      get (Str (w_target ?w)) (update ?d ?s) \<noteq> None" by blast
  with 1 show ?thesis by simp
qed

subsection \<open>C9\<close>

text \<open>
  Claim C9. When no argument of \<^verbatim>\<open>update\<close> in a run has the
  \<^verbatim>\<open>videoSSRC\<close> 0, no binding stored in the state that the run reaches has
  the \<^verbatim>\<open>videoSSRC\<close> 0.
\<close>

theorem videoSSRC_nonzero:
  assumes "\<forall>d. OpUpdate d \<in> set ops \<longrightarrow> videoSSRC d \<noteq> Present 0"
    and "(k, b) \<in> set (map_entries (run ops init))"
  shows "videoSSRC b \<noteq> Present 0"
proof -
  have "\<forall>e \<in> set (map_entries (run ops init)). videoSSRC (snd e) \<noteq> Present 0"
    using assms(1) by (intro video_run) (simp_all add: init_def)
  with assms(2) show ?thesis by force
qed

theorem videoSSRC_nonzero_witness:
  "videoSSRC (spread (Some \<lparr>audioSSRC = 1, videoSSRC = Present 5, userId = Present ''u''\<rparr>)
      \<lparr>audioSSRC = 1, videoSSRC = Absent, userId = Present ''v''\<rparr>) \<noteq> Present 0"
proof -
  let ?a = "\<lparr>audioSSRC = 1, videoSSRC = Present 5, userId = Present ''u''\<rparr>"
  let ?b = "\<lparr>audioSSRC = 1, videoSSRC = Absent, userId = Present ''v''\<rparr>"
  have h1: "\<forall>d. OpUpdate d \<in> set [OpUpdate ?a, OpUpdate ?b] \<longrightarrow> videoSSRC d \<noteq> Present 0"
    by auto
  have h2: "(1, spread (Some ?a) ?b) \<in> set (map_entries (run [OpUpdate ?a, OpUpdate ?b] init))"
    by (simp add: update_entries init_def)
  show ?thesis using videoSSRC_nonzero [OF h1 h2] .
qed

subsection \<open>C10\<close>

text \<open>
  Claim C10. \<^verbatim>\<open>update\<close> touches only the entry of \<^verbatim>\<open>data.audioSSRC\<close>: a
  lookup of any other key gives what it gave before, the entries of the other
  keys are the same and in the same order, no key disappears and the number of
  entries does not go down.
\<close>

theorem update_frame:
  "(k \<noteq> audioSSRC d \<longrightarrow> map_get (map_entries (update d s)) k = map_get (map_entries s) k)
   \<and> filter (\<lambda>e. fst e \<noteq> audioSSRC d) (map_entries (update d s)) =
       filter (\<lambda>e. fst e \<noteq> audioSSRC d) (map_entries s)
   \<and> set (map_keys (map_entries s)) \<subseteq> set (map_keys (map_entries (update d s)))
   \<and> length (map_entries s) \<le> length (map_entries (update d s))"
  by (auto simp: update_entries map_get_set filter_map_set map_keys_def map_keys_set
        length_map_set)

theorem update_frame_witness:
  "map_get (map_entries (update \<lparr>audioSSRC = 2, videoSSRC = Absent, userId = Present ''b''\<rparr>
      (update \<lparr>audioSSRC = 1, videoSSRC = Absent, userId = Present ''a''\<rparr> init))) 1 =
   Some \<lparr>audioSSRC = 1, videoSSRC = Absent, userId = Present ''a''\<rparr>"
  using update_frame [of 1 "\<lparr>audioSSRC = 2, videoSSRC = Absent, userId = Present ''b''\<rparr>"
      "update \<lparr>audioSSRC = 1, videoSSRC = Absent, userId = Present ''a''\<rparr> init"]
  by (simp add: update_entries init_def)

end
